theory Spec2Isabelle
  imports Main
begin

section \<open>Tokens\<close>

text \<open>
  Modelled from the spec: the \<^verbatim>\<open>TokenKind\<close> enumeration of \<^verbatim>\<open>Tokenizer.ts\<close>, which is
  not part of the sources at hand. \<^verbatim>\<open>Parser.ts\<close> dispatches on six kinds by name; every
  other kind (punctuation, the remaining keywords) is only ever matched by its text and is
  collected in \<open>OtherKind\<close>.
\<close>

datatype TokenKind =
    Identifier
  | StringLiteral
  | NumberLiteral
  | KEYWORD_type
  | KEYWORD_true
  | KEYWORD_false
  | OtherKind

text \<open>
  Modelled from the spec: the \<^verbatim>\<open>Token\<close> interface of the combinator library (kind, literal
  text, source position). The \<^verbatim>\<open>next\<close> link of the library's token is the tail of the
  token list here.
\<close>

record Token =
  kind :: TokenKind
  "text" :: string
  pos :: nat

section \<open>The abstract syntax tree\<close>

text \<open>
  Modelled from the spec: the node shapes of \<^verbatim>\<open>AST.ts\<close> (section 3 of the
  specification), with the fields in the order in which \<^verbatim>\<open>Parser.ts\<close> writes them.
  Two fields can hold \<^verbatim>\<open>undefined\<close> in the source and are options here:
  the element type of an array node (\<^verbatim>\<open>applyArrayTypeLrec\<close> builds the node before its
  element is known) and the entity of a type reference (\<^verbatim>\<open>applyTypeReference\<close> starts its
  loop from \<^verbatim>\<open>undefined\<close>).
\<close>

datatype EntityName =
    Name string
  | QualifiedName EntityName string

datatype Type =
    PrimitiveType string
  | LiteralType string
  | OptionalType Type
  | ParenType Type
  | ArrayType bool "Type option"
  | UnionType "Type list"
  | TypeReference "EntityName option" "Type list"
  | DecoratedGenericType Type string
  | ObjectType bool "Type list" "ObjectMember list"
and ObjectMember =
    Prop bool string bool Type
  | Indexer bool string Type Type

datatype Statement =
    TypeAliasDecl bool string Type
  | UseStrictStat
  | ImportEqualStat string string
  | ImportAsStat string string
  | ImportNameStat "string list" string

datatype FlowProgram = FlowProgram "Statement list"

section \<open>The parser combinators\<close>

text \<open>
  Modelled from the spec: the error taxonomy of section 7. A failure carries the position
  of the token that could not be consumed; running out of tokens has no position and lies
  beyond every token.
\<close>

datatype ParseError =
    UnexpectedToken nat
  | UnexpectedEndOfInput
  | TrailingInput nat

fun errorPos :: "ParseError \<Rightarrow> nat option" where
  "errorPos (UnexpectedToken p) = Some p"
| "errorPos UnexpectedEndOfInput = None"
| "errorPos (TrailingInput p) = Some p"

text \<open>
  Modelled from the spec: ``one error describing the furthest position reached''. Of two
  errors the one further into the input is kept; the earlier one wins a tie.
\<close>

definition furthest :: "ParseError \<Rightarrow> ParseError \<Rightarrow> ParseError" where
  "furthest e1 e2 =
     (case errorPos e1 of
        None \<Rightarrow> e1
      | Some p1 \<Rightarrow>
          (case errorPos e2 of
             None \<Rightarrow> e2
           | Some p2 \<Rightarrow> if p1 < p2 then e2 else e1))"

fun betterError :: "ParseError option \<Rightarrow> ParseError option \<Rightarrow> ParseError option" where
  "betterError None e2 = e2"
| "betterError (Some e1) None = Some e1"
| "betterError (Some e1) (Some e2) = Some (furthest e1 e2)"

text \<open>Modelled from the spec: the same choice when a failure ends a sequence that has met
  an earlier one.\<close>

fun orFurther :: "ParseError option \<Rightarrow> ParseError \<Rightarrow> ParseError" where
  "orFurther None e2 = e2"
| "orFurther (Some e1) e2 = furthest e1 e2"

text \<open>
  Modelled from the spec: what a parser returns (sections 2, 5 and 7). A success carries
  the recognised value, the unconsumed remainder and the furthest failure met on the way;
  a failure carries its error and consumes nothing. \<open>Thrown\<close> is a JavaScript exception
  leaving the parser: no combinator catches it.
\<close>

datatype 'a ParserOutput =
    Success 'a "Token list" "ParseError option"
  | Failure ParseError
  | Thrown string

type_synonym 'a Parser = "Token list \<Rightarrow> 'a ParserOutput"

text \<open>Modelled from the spec: the error of a parser that cannot consume the token at the
  current position (\<open>UnexpectedToken\<close>), or finds none (\<open>UnexpectedEndOfInput\<close>).\<close>

definition unableToConsume :: "Token list \<Rightarrow> ParseError" where
  "unableToConsume ts =
     (case ts of [] \<Rightarrow> UnexpectedEndOfInput | t # _ \<Rightarrow> UnexpectedToken (pos t))"

text \<open>Modelled from the spec: \<^verbatim>\<open>tok\<close> compares the token kind, \<^verbatim>\<open>str\<close> the literal text
  (section 6).\<close>

definition tok :: "TokenKind \<Rightarrow> Token Parser" where
  "tok k ts =
     (case ts of
        [] \<Rightarrow> Failure (unableToConsume ts)
      | t # rest \<Rightarrow> if kind t = k then Success t rest None else Failure (unableToConsume ts))"

definition str :: "string \<Rightarrow> Token Parser" where
  "str s ts =
     (case ts of
        [] \<Rightarrow> Failure (unableToConsume ts)
      | t # rest \<Rightarrow> if text t = s then Success t rest None else Failure (unableToConsume ts))"

text \<open>Modelled from the spec: \<^verbatim>\<open>apply\<close> reduces the recognised value to an AST node.\<close>

definition apply_p :: "'a Parser \<Rightarrow> ('a \<Rightarrow> 'b) \<Rightarrow> 'b Parser" where
  "apply_p p f ts =
     (case p ts of
        Success v rest e \<Rightarrow> Success (f v) rest e
      | Failure e \<Rightarrow> Failure e
      | Thrown m \<Rightarrow> Thrown m)"

text \<open>
  Modelled from the spec: sequence composition, ``every element to match starting
  immediately after the previous element's end position'' (section 5). The variadic
  \<^verbatim>\<open>seq(a, b, c)\<close> of the library is \<open>seq a (seq b c)\<close>, and its result tuple
  \<^verbatim>\<open>[x, y, z]\<close> is the tuple \<open>(x, y, z)\<close>.
\<close>

definition seq :: "'a Parser \<Rightarrow> 'b Parser \<Rightarrow> ('a \<times> 'b) Parser" where
  "seq p q ts =
     (case p ts of
        Success a rest e1 \<Rightarrow>
          (case q rest of
             Success b rest' e2 \<Rightarrow> Success (a, b) rest' (betterError e1 e2)
           | Failure e2 \<Rightarrow> Failure (orFurther e1 e2)
           | Thrown m \<Rightarrow> Thrown m)
      | Failure e1 \<Rightarrow> Failure e1
      | Thrown m \<Rightarrow> Thrown m)"

text \<open>
  Modelled from the spec: alternation, ``try alternatives in order, first success wins, no
  side effects on failure'' (sections 4.1, 4.4 and 9). When every alternative fails, the
  furthest failure is reported.
\<close>

definition alt2 :: "'a Parser \<Rightarrow> 'a Parser \<Rightarrow> 'a Parser" where
  "alt2 p q ts =
     (case p ts of
        Success v rest e \<Rightarrow> Success v rest e
      | Failure e1 \<Rightarrow>
          (case q ts of
             Success v rest e2 \<Rightarrow> Success v rest (betterError (Some e1) e2)
           | Failure e2 \<Rightarrow> Failure (furthest e1 e2)
           | Thrown m \<Rightarrow> Thrown m)
      | Thrown m \<Rightarrow> Thrown m)"

fun alt :: "'a Parser list \<Rightarrow> 'a Parser" where
  "alt [] = (\<lambda>ts. Failure (unableToConsume ts))"
| "alt [p] = p"
| "alt (p # q # ps) = alt2 p (alt (q # ps))"

text \<open>Modelled from the spec: an optional element; absence is the value \<open>None\<close>
  (\<^verbatim>\<open>undefined\<close> in the source).\<close>

definition opt_sc :: "'a Parser \<Rightarrow> 'a option Parser" where
  "opt_sc p ts =
     (case p ts of
        Success v rest e \<Rightarrow> Success (Some v) rest e
      | Failure e \<Rightarrow> Success None ts (Some e)
      | Thrown m \<Rightarrow> Thrown m)"

text \<open>
  Modelled from the spec: repetition ``until no further [element] can be matched,
  collecting results in encounter order'' (section 4.5). The loop goes on only while the
  element consumes a token, and it never fails: the failure that ends it is kept as the
  furthest error of the success.
\<close>

function rep_sc :: "'a Parser \<Rightarrow> 'a list Parser" where
  "rep_sc p ts =
     (case p ts of
        Success v rest e1 \<Rightarrow>
          if length rest < length ts then
            (case rep_sc p rest of
               Success vs rest' e2 \<Rightarrow> Success (v # vs) rest' (betterError e1 e2)
             | Failure e2 \<Rightarrow> Failure e2
             | Thrown m \<Rightarrow> Thrown m)
          else Success [] ts e1
      | Failure e1 \<Rightarrow> Success [] ts (Some e1)
      | Thrown m \<Rightarrow> Thrown m)"
  by pat_completeness auto
termination
  by (relation "measure (\<lambda>(p, ts). length ts)") auto

declare rep_sc.simps [simp del]

text \<open>Modelled from the spec: a non-empty list of elements with separators; the separators
  are dropped.\<close>

definition list_sc :: "'a Parser \<Rightarrow> 'b Parser \<Rightarrow> 'a list Parser" where
  "list_sc p s = apply_p (seq p (rep_sc (apply_p (seq s p) snd))) (\<lambda>(x, xs). x # xs)"

text \<open>
  Modelled from the spec: the fold-left primitive of sections 4.2 and 9, ``parse a head,
  then parse zero-or-more (operator, operand) pairs, reducing left-to-right with an
  operator-specific combiner function''. The combiner of the source can throw; here it
  returns the message on the left.
\<close>

fun lrecFold :: "('a \<Rightarrow> 'b \<Rightarrow> string + 'a) \<Rightarrow> 'a \<Rightarrow> 'b list \<Rightarrow> string + 'a" where
  "lrecFold f a [] = Inr a"
| "lrecFold f a (b # bs) =
     (case f a b of Inl m \<Rightarrow> Inl m | Inr a' \<Rightarrow> lrecFold f a' bs)"

definition lrec_sc :: "'a Parser \<Rightarrow> 'b Parser \<Rightarrow> ('a \<Rightarrow> 'b \<Rightarrow> string + 'a) \<Rightarrow> 'a Parser" where
  "lrec_sc p q f ts =
     (case seq p (rep_sc q) ts of
        Success (a, bs) rest e \<Rightarrow>
          (case lrecFold f a bs of Inl m \<Rightarrow> Thrown m | Inr v \<Rightarrow> Success v rest e)
      | Failure e \<Rightarrow> Failure e
      | Thrown m \<Rightarrow> Thrown m)"

section \<open>The reductions of \<^verbatim>\<open>Parser.ts\<close>\<close>

definition applyNull :: "Token \<Rightarrow> Type" where
  "applyNull value = PrimitiveType ''null''"

definition applyNumber :: "Token \<Rightarrow> Type" where
  "applyNumber value = PrimitiveType ''number''"

definition applyString :: "Token \<Rightarrow> Type" where
  "applyString value = PrimitiveType ''string''"

definition applyBoolean :: "Token \<Rightarrow> Type" where
  "applyBoolean value = PrimitiveType ''boolean''"

definition applyLiteralType :: "Token \<Rightarrow> Type" where
  "applyLiteralType value = LiteralType (text value)"

fun applyOptionalType :: "Token \<times> Type \<Rightarrow> Type" where
  "applyOptionalType (q, elementType) =
     (case elementType of
        OptionalType _ \<Rightarrow> elementType
      | _ \<Rightarrow> OptionalType elementType)"

fun applyParenType :: "Token \<times> Type \<times> Token \<Rightarrow> Type" where
  "applyParenType (lp, elementType, rp) = ParenType elementType"

fun applyReadonlyArrayType :: "Token \<times> Token \<times> Type \<times> Token \<Rightarrow> Type" where
  "applyReadonlyArrayType (marker, lt, elementType, gt) = ArrayType True (Some elementType)"

fun applyDecoratedGenericType :: "Token \<times> Token \<times> Type \<times> Token \<Rightarrow> Type" where
  "applyDecoratedGenericType (marker, lt, elementType, gt) =
     DecoratedGenericType elementType ''$ReadOnly''"

text \<open>The loop of \<^verbatim>\<open>applyTypeReference\<close>: \<open>entity\<close> starts undefined, the first name sets
  it, every further name wraps it as the parent.\<close>

definition entityStep :: "EntityName option \<Rightarrow> Token \<Rightarrow> EntityName option" where
  "entityStep entity name =
     (case entity of
        None \<Rightarrow> Some (Name (text name))
      | Some parent \<Rightarrow> Some (QualifiedName parent (text name)))"

fun applyTypeReference ::
  "Token list \<times> (Token \<times> Type list \<times> Token) option \<Rightarrow> Type" where
  "applyTypeReference (names, typeArguments) =
     (let entity = foldl entityStep None names in
      case typeArguments of
        None \<Rightarrow> TypeReference entity []
      | Some (lt, args, gt) \<Rightarrow> TypeReference entity args)"

fun applyObjectTypeMixin :: "Token \<times> Type \<Rightarrow> Type" where
  "applyObjectTypeMixin (dots, mixin) = mixin"

fun applyObjectTypeProp ::
  "Token option \<times> Token \<times> Token option \<times> Token \<times> Type \<Rightarrow> ObjectMember" where
  "applyObjectTypeProp (isReadonly, name, isOptional, colon, propType) =
     Prop (isReadonly \<noteq> None) (text name) (isOptional \<noteq> None) propType"

fun applyObjectIndexer ::
  "Token option \<times> Token \<times> Token \<times> Token \<times> Type \<times> Token \<times> Token \<times> Type \<Rightarrow> ObjectMember" where
  "applyObjectIndexer (isReadonly, lb, keyName, colon, keyType, rb, colon', valueType) =
     Indexer (isReadonly \<noteq> None) (text keyName) keyType valueType"

text \<open>
  The member list of an object type holds \<^verbatim>\<open>ast.Type | ast.ObjectMember\<close>: a mixin on the
  left, a property or indexer on the right. The two filters of \<^verbatim>\<open>applyObjectType\<close> tell
  them apart by their \<^verbatim>\<open>kind\<close>.
\<close>

definition mixinsOf :: "(Type + ObjectMember) list \<Rightarrow> Type list" where
  "mixinsOf members =
     List.map_filter (\<lambda>member. case member of Inl t \<Rightarrow> Some t | Inr _ \<Rightarrow> None) members"

definition membersOf :: "(Type + ObjectMember) list \<Rightarrow> ObjectMember list" where
  "membersOf members =
     List.map_filter (\<lambda>member. case member of Inl _ \<Rightarrow> None | Inr m \<Rightarrow> Some m) members"

fun applyObjectType ::
  "Token \<times> Token option \<times> (Type + ObjectMember) list option \<times> Token option \<times> Token option \<times> Token
   \<Rightarrow> Type" where
  "applyObjectType (lbrace, isExact, members, comma, bar, rbrace) =
     ObjectType (isExact \<noteq> None)
       (case members of None \<Rightarrow> [] | Some ms \<Rightarrow> mixinsOf ms)
       (case members of None \<Rightarrow> [] | Some ms \<Rightarrow> membersOf ms)"

fun applyArrayTypeLrec :: "Token \<times> Token \<Rightarrow> Type" where
  "applyArrayTypeLrec (lb, rb) = ArrayType False None"

fun applyUnionHead :: "Token option \<times> Type \<Rightarrow> Type" where
  "applyUnionHead (bar, t) = t"

fun applyUnionTypeLrec :: "Token \<times> Type \<Rightarrow> Type" where
  "applyUnionTypeLrec (bar, t) = UnionType [t]"

text \<open>
  \<^verbatim>\<open>applyTypeLrec\<close> writes into its arguments (\<^verbatim>\<open>second.elementType = first\<close>,
  \<^verbatim>\<open>push\<close>, \<^verbatim>\<open>unshift\<close>); both were built by the fold that calls it and nothing else
  holds them, so the updated node is the result. Its \<^verbatim>\<open>default\<close> branch throws.
\<close>

definition applyTypeLrec :: "Type \<Rightarrow> Type \<Rightarrow> string + Type" where
  "applyTypeLrec first second =
     (case second of
        ArrayType isReadonly _ \<Rightarrow> Inr (ArrayType isReadonly (Some first))
      | UnionType elementTypes \<Rightarrow>
          (case first of
             UnionType firstTypes \<Rightarrow> Inr (UnionType (firstTypes @ elementTypes))
           | _ \<Rightarrow> Inr (UnionType (first # elementTypes)))
      | _ \<Rightarrow> Inl ''Unrecognized type AST.'')"

fun applyTypeAliasDecl ::
  "Token option \<times> Token \<times> Token \<times> Token \<times> Type \<times> Token \<Rightarrow> Statement" where
  "applyTypeAliasDecl (hasExport, kw, name, eq, aliasedType, semi) =
     TypeAliasDecl (hasExport \<noteq> None) (text name) aliasedType"

fun applyUseStrictStat :: "Token \<times> Token \<Rightarrow> Statement" where
  "applyUseStrictStat (pragma, semi) = UseStrictStat"

fun applyImportEqualStat ::
  "Token \<times> Token \<times> Token \<times> Token \<times> Token \<times> Token \<times> Token \<times> Token \<Rightarrow> Statement" where
  "applyImportEqualStat (kw, name, eq, req, lp, source, rp, semi) =
     ImportEqualStat (text name) (text source)"

fun applyImportAsStat ::
  "Token \<times> Token \<times> Token \<times> Token \<times> Token \<times> Token \<times> Token \<Rightarrow> Statement" where
  "applyImportAsStat (kw, star, as, name, from, source, semi) =
     ImportAsStat (text name) (text source)"

fun applyImportNameStat ::
  "Token \<times> Token option \<times> Token \<times> Token list \<times> Token \<times> Token \<times> Token \<times> Token \<Rightarrow> Statement" where
  "applyImportNameStat (kw, ty, lb, names, rb, from, source, semi) =
     ImportNameStat (map text names) (text source)"

definition applyProgram :: "Statement list \<Rightarrow> FlowProgram" where
  "applyProgram value = FlowProgram value"

section \<open>The grammar\<close>

definition IDENTIFIER :: "Token Parser" where
  "IDENTIFIER = alt [tok KEYWORD_type, tok Identifier]"

text \<open>
  The patterns that \<^verbatim>\<open>setPattern\<close> binds, each taking the rules it refers to
  (\<^verbatim>\<open>rule()\<close> declares them before they are bound).
\<close>

definition OBJECT_MEMBER :: "Type Parser \<Rightarrow> (Type + ObjectMember) Parser" where
  "OBJECT_MEMBER T =
     alt [
       apply_p (apply_p (seq (str ''...'') T) applyObjectTypeMixin) Inl,
       apply_p
         (apply_p (seq (opt_sc (str ''+'')) (seq IDENTIFIER (seq (opt_sc (str ''?''))
            (seq (str '':'') T)))) applyObjectTypeProp) Inr,
       apply_p
         (apply_p (seq (opt_sc (str ''+'')) (seq (str ''['') (seq IDENTIFIER (seq (str '':'')
            (seq T (seq (str '']'') (seq (str '':'') T))))))) applyObjectIndexer) Inr
     ]"

definition TYPE_TERM_pattern :: "Type Parser \<Rightarrow> Type Parser" where
  "TYPE_TERM_pattern T =
     alt [
       alt [
         apply_p (str ''null'') applyNull,
         apply_p (str ''number'') applyNumber,
         apply_p (str ''string'') applyString,
         apply_p (str ''boolean'') applyBoolean,
         apply_p
           (alt [tok StringLiteral, tok NumberLiteral, tok KEYWORD_true, tok KEYWORD_false])
           applyLiteralType,
         apply_p (seq (str ''?'') T) applyOptionalType,
         apply_p (seq (str ''('') (seq T (str '')''))) applyParenType
       ],
       alt [
         apply_p (seq (str ''$ReadOnlyArray'') (seq (str ''<'') (seq T (str ''>''))))
           applyReadonlyArrayType,
         apply_p (seq (str ''$ReadOnly'') (seq (str ''<'') (seq T (str ''>''))))
           applyDecoratedGenericType,
         apply_p
           (seq (list_sc IDENTIFIER (str ''.''))
              (opt_sc (seq (str ''<'') (seq (list_sc T (str '','')) (str ''>'')))))
           applyTypeReference
       ],
       apply_p
         (seq (str ''{'')
            (seq (opt_sc (str ''|''))
               (seq (opt_sc (list_sc (OBJECT_MEMBER T) (str '','')))
                  (seq (opt_sc (str '',''))
                     (seq (opt_sc (str ''|''))
                        (str ''}''))))))
         applyObjectType
     ]"

definition TYPE_ARRAY_pattern :: "Type Parser \<Rightarrow> Type Parser" where
  "TYPE_ARRAY_pattern T =
     lrec_sc
       T
       (apply_p (seq (str ''['') (str '']'')) applyArrayTypeLrec)
       applyTypeLrec"

definition TYPE_pattern :: "Type Parser \<Rightarrow> Type Parser" where
  "TYPE_pattern T =
     lrec_sc
       (apply_p (seq (opt_sc (str ''|'')) T) applyUnionHead)
       (apply_p (seq (str ''|'') T) applyUnionTypeLrec)
       applyTypeLrec"

text \<open>
  The three type rules refer to each other. A rule that re-entered itself without having
  consumed a token would recurse until the JavaScript stack overflows; the definition makes
  that branch explicit, and \<open>TYPE_TERM_unfold\<close>, \<open>TYPE_ARRAY_unfold\<close> and \<open>TYPE_unfold\<close>
  below show that it is never taken.
\<close>

definition stackOverflow :: "'a ParserOutput" where
  "stackOverflow = Thrown ''Maximum call stack size exceeded''"

function TYPE_TERM :: "Type Parser"
  and TYPE_ARRAY :: "Type Parser"
  and TYPE' :: "Type Parser" where
  "TYPE_TERM ts =
     TYPE_TERM_pattern (\<lambda>rest. if length rest < length ts then TYPE' rest else stackOverflow) ts"
| "TYPE_ARRAY ts =
     TYPE_ARRAY_pattern (\<lambda>rest. if length rest \<le> length ts then TYPE_TERM rest else stackOverflow) ts"
| "TYPE' ts =
     TYPE_pattern (\<lambda>rest. if length rest \<le> length ts then TYPE_ARRAY rest else stackOverflow) ts"
  by pat_completeness auto
termination
  by (relation "inv_image (less_than <*lex*> less_than)
        (\<lambda>x. case x of
           Inl ts \<Rightarrow> (length ts, 0::nat)
         | Inr (Inl ts) \<Rightarrow> (length ts, 1)
         | Inr (Inr ts) \<Rightarrow> (length ts, 2))") auto

declare TYPE_TERM.simps [simp del] TYPE_ARRAY.simps [simp del] TYPE'.simps [simp del]

definition useStrictText :: string where
  "useStrictText = CHR 0x27 # ''use strict'' @ [CHR 0x27]"

definition DECL :: "Statement Parser" where
  "DECL =
     apply_p
       (seq (opt_sc (str ''export'')) (seq (str ''type'') (seq IDENTIFIER (seq (str ''='')
          (seq TYPE' (str '';''))))))
       applyTypeAliasDecl"

definition STAT :: "Statement Parser" where
  "STAT =
     alt [
       DECL,
       apply_p
         (seq (str ''const'') (seq (tok Identifier) (seq (str ''='') (seq (str ''require'')
            (seq (str ''('') (seq (tok StringLiteral) (seq (str '')'') (str '';''))))))))
         applyImportEqualStat,
       apply_p
         (seq (str ''import'') (seq (str ''*'') (seq (str ''as'') (seq (tok Identifier)
            (seq (str ''from'') (seq (tok StringLiteral) (str '';'')))))))
         applyImportAsStat,
       apply_p
         (seq (str ''import'') (seq (opt_sc (str ''type'')) (seq (str ''{'')
            (seq (list_sc (tok Identifier) (str '','')) (seq (str ''}'') (seq (str ''from'')
               (seq (tok StringLiteral) (str '';''))))))))
         applyImportNameStat,
       apply_p (seq (str useStrictText) (str '';'')) applyUseStrictStat
     ]"

definition PROGRAM :: "FlowProgram Parser" where
  "PROGRAM = apply_p (rep_sc STAT) applyProgram"

section \<open>Properties of parsers\<close>

text \<open>
  What the proofs below say about a parser: every value it returns satisfies a predicate;
  a success leaves strictly fewer tokens (or no more tokens) than it was given; no exception
  leaves it; two parsers coincide on the inputs shorter than a bound.
\<close>

definition results :: "'a Parser \<Rightarrow> ('a \<Rightarrow> bool) \<Rightarrow> bool" where
  "results p Q \<longleftrightarrow> (\<forall>ts v r e. p ts = Success v r e \<longrightarrow> Q v)"

definition advancing :: "'a Parser \<Rightarrow> bool" where
  "advancing p \<longleftrightarrow> (\<forall>ts v r e. p ts = Success v r e \<longrightarrow> length r < length ts)"

definition bounded :: "'a Parser \<Rightarrow> bool" where
  "bounded p \<longleftrightarrow> (\<forall>ts v r e. p ts = Success v r e \<longrightarrow> length r \<le> length ts)"

definition noThrow :: "'a Parser \<Rightarrow> bool" where
  "noThrow p \<longleftrightarrow> (\<forall>ts m. p ts \<noteq> Thrown m)"

definition agree :: "nat \<Rightarrow> 'a Parser \<Rightarrow> 'a Parser \<Rightarrow> bool" where
  "agree n p q \<longleftrightarrow> (\<forall>ts. length ts < n \<longrightarrow> p ts = q ts)"

text \<open>Tokens for the examples: kind, text and the offset of the token in its line.\<close>

definition mkToken :: "TokenKind \<Rightarrow> string \<Rightarrow> nat \<Rightarrow> Token" where
  "mkToken k s p = \<lparr>kind = k, text = s, pos = p\<rparr>"

text \<open>Whether the token list begins with a token of the given text.\<close>

definition startsWith :: "string \<Rightarrow> Token list \<Rightarrow> bool" where
  "startsWith s ts = (case ts of [] \<Rightarrow> False | t # _ \<Rightarrow> text t = s)"

text \<open>Predicates on the syntax tree.\<close>

fun isUnionType :: "Type \<Rightarrow> bool" where
  "isUnionType (UnionType elementTypes) = True"
| "isUnionType _ = False"

fun isOptionalType :: "Type \<Rightarrow> bool" where
  "isOptionalType (OptionalType elementType) = True"
| "isOptionalType _ = False"

text \<open>Every type node of a tree, the root first.\<close>

fun typeNodes :: "Type \<Rightarrow> Type list"
  and memberNodes :: "ObjectMember \<Rightarrow> Type list" where
  "typeNodes (PrimitiveType n) = [PrimitiveType n]"
| "typeNodes (LiteralType s) = [LiteralType s]"
| "typeNodes (OptionalType t) = OptionalType t # typeNodes t"
| "typeNodes (ParenType t) = ParenType t # typeNodes t"
| "typeNodes (ArrayType ro None) = [ArrayType ro None]"
| "typeNodes (ArrayType ro (Some t)) = ArrayType ro (Some t) # typeNodes t"
| "typeNodes (UnionType ts) = UnionType ts # concat (map typeNodes ts)"
| "typeNodes (TypeReference n args) = TypeReference n args # concat (map typeNodes args)"
| "typeNodes (DecoratedGenericType t n) = DecoratedGenericType t n # typeNodes t"
| "typeNodes (ObjectType ex mixins members) =
     ObjectType ex mixins members
       # concat (map typeNodes mixins) @ concat (map memberNodes members)"
| "memberNodes (Prop ro n opt t) = typeNodes t"
| "memberNodes (Indexer ro k kt vt) = typeNodes kt @ typeNodes vt"

definition wellFormedNode :: "Type \<Rightarrow> bool" where
  "wellFormedNode u =
     (case u of
        UnionType es \<Rightarrow> 2 \<le> length es \<and> list_all (\<lambda>x. \<not> isUnionType x) es
      | ArrayType ro el \<Rightarrow> el \<noteq> None
      | OptionalType el \<Rightarrow> \<not> isOptionalType el
      | _ \<Rightarrow> True)"

definition wellFormed :: "Type \<Rightarrow> bool" where
  "wellFormed t = list_all wellFormedNode (typeNodes t)"

definition wellFormedMember :: "ObjectMember \<Rightarrow> bool" where
  "wellFormedMember m = list_all wellFormedNode (memberNodes m)"


text \<open>What a caller sees of a success: the value and the tokens left; nothing otherwise.\<close>

definition parsed :: "'a ParserOutput \<Rightarrow> ('a \<times> Token list) option" where
  "parsed out = (case out of Success v rest e \<Rightarrow> Some (v, rest) | _ \<Rightarrow> None)"

text \<open>Whether the first error lies at least as far into the input as the second; the end
  of the input lies beyond every token.\<close>

definition atLeastAsFar :: "ParseError \<Rightarrow> ParseError \<Rightarrow> bool" where
  "atLeastAsFar e1 e2 =
     (case errorPos e1 of
        None \<Rightarrow> True
      | Some p1 \<Rightarrow> (case errorPos e2 of None \<Rightarrow> False | Some p2 \<Rightarrow> p2 \<le> p1))"


declare alt.simps [simp del]

section \<open>Inversion of the combinators\<close>

lemma str_Success: "str s ts = Success v r e \<longleftrightarrow> ts = v # r \<and> text v = s \<and> e = None"
  by (auto simp: str_def split: list.splits)

lemma tok_Success: "tok k ts = Success v r e \<longleftrightarrow> ts = v # r \<and> kind v = k \<and> e = None"
  by (auto simp: tok_def split: list.splits)

lemma str_Thrown [simp]: "str s ts \<noteq> Thrown m"
  by (simp add: str_def split: list.splits)

lemma tok_Thrown [simp]: "tok k ts \<noteq> Thrown m"
  by (simp add: tok_def split: list.splits)

lemma apply_p_Success:
  "apply_p p f ts = Success v r e \<longleftrightarrow> (\<exists>a. p ts = Success a r e \<and> v = f a)"
  by (auto simp: apply_p_def split: ParserOutput.splits)

lemma apply_p_Thrown: "apply_p p f ts = Thrown m \<longleftrightarrow> p ts = Thrown m"
  by (auto simp: apply_p_def split: ParserOutput.splits)

lemma apply_p_Failure: "apply_p p f ts = Failure e \<longleftrightarrow> p ts = Failure e"
  by (auto simp: apply_p_def split: ParserOutput.splits)

lemma seq_Success:
  "seq p q ts = Success v r e \<longleftrightarrow>
     (\<exists>a r1 e1 b e2. p ts = Success a r1 e1 \<and> q r1 = Success b r e2 \<and> v = (a, b)
        \<and> e = betterError e1 e2)"
  by (auto simp: seq_def split: ParserOutput.splits)

lemma seq_Thrown:
  "seq p q ts = Thrown m \<longleftrightarrow>
     p ts = Thrown m \<or> (\<exists>a r1 e1. p ts = Success a r1 e1 \<and> q r1 = Thrown m)"
  by (auto simp: seq_def split: ParserOutput.splits)

lemma alt2_Success:
  "alt2 p q ts = Success v r e \<Longrightarrow> (\<exists>e'. p ts = Success v r e') \<or> (\<exists>e'. q ts = Success v r e')"
  by (auto simp: alt2_def split: ParserOutput.splits)

lemma alt2_Thrown: "alt2 p q ts = Thrown m \<Longrightarrow> p ts = Thrown m \<or> q ts = Thrown m"
  by (auto simp: alt2_def split: ParserOutput.splits)

lemma alt_Success: "alt ps ts = Success v r e \<Longrightarrow> \<exists>p\<in>set ps. \<exists>e'. p ts = Success v r e'"
proof (induction ps arbitrary: e rule: alt.induct)
  case 1
  then show ?case by (simp add: alt.simps)
next
  case (2 p)
  then show ?case by (auto simp: alt.simps)
next
  case (3 p q ps)
  from "3.prems" have "(\<exists>e'. p ts = Success v r e') \<or> (\<exists>e'. alt (q # ps) ts = Success v r e')"
    by (auto simp: alt.simps dest: alt2_Success)
  with "3.IH" show ?case by auto
qed

lemma alt_Thrown: "alt ps ts = Thrown m \<Longrightarrow> \<exists>p\<in>set ps. p ts = Thrown m"
proof (induction ps rule: alt.induct)
  case 1
  then show ?case by (simp add: alt.simps)
next
  case (2 p)
  then show ?case by (auto simp: alt.simps)
next
  case (3 p q ps)
  from "3.prems" have "p ts = Thrown m \<or> alt (q # ps) ts = Thrown m"
    by (auto simp: alt.simps dest: alt2_Thrown)
  with "3.IH" show ?case by auto
qed

lemma opt_sc_Success:
  "opt_sc p ts = Success v r e \<longleftrightarrow>
     (\<exists>a. v = Some a \<and> p ts = Success a r e)
     \<or> (v = None \<and> r = ts \<and> (\<exists>e'. p ts = Failure e' \<and> e = Some e'))"
  by (auto simp: opt_sc_def split: ParserOutput.splits)

lemma opt_sc_Thrown: "opt_sc p ts = Thrown m \<longleftrightarrow> p ts = Thrown m"
  by (auto simp: opt_sc_def split: ParserOutput.splits)

lemma opt_sc_Failure [simp]: "opt_sc p ts \<noteq> Failure e"
  by (auto simp: opt_sc_def split: ParserOutput.splits)

lemma rep_sc_Failure [simp]: "rep_sc p ts \<noteq> Failure e"
proof (induction p ts rule: rep_sc.induct)
  case (1 p ts)
  then show ?case
    by (subst rep_sc.simps) (auto split: ParserOutput.splits)
qed

lemma rep_sc_length: "rep_sc p ts = Success vs r e \<Longrightarrow> length r \<le> length ts"
proof (induction p ts arbitrary: vs r e rule: rep_sc.induct)
  case (1 p ts)
  from "1.prems" show ?case
    by (subst (asm) rep_sc.simps) (auto split: ParserOutput.splits if_splits dest!: "1.IH")
qed

section \<open>Results, progress, exceptions\<close>

lemma advancing_bounded: "advancing p \<Longrightarrow> bounded p"
  by (auto simp: advancing_def bounded_def dest: less_imp_le)

lemma advancing_str [simp]: "advancing (str s)"
  by (auto simp: advancing_def str_Success)

lemma advancing_tok [simp]: "advancing (tok k)"
  by (auto simp: advancing_def tok_Success)

lemma advancing_apply_p [simp]: "advancing p \<Longrightarrow> advancing (apply_p p f)"
  by (auto simp: advancing_def apply_p_Success)

lemma bounded_apply_p [simp]: "bounded p \<Longrightarrow> bounded (apply_p p f)"
  by (auto simp: bounded_def apply_p_Success)

lemma advancing_seq1: "advancing p \<Longrightarrow> bounded q \<Longrightarrow> advancing (seq p q)"
  by (fastforce simp: advancing_def bounded_def seq_Success)

lemma advancing_seq2: "bounded p \<Longrightarrow> advancing q \<Longrightarrow> advancing (seq p q)"
  by (fastforce simp: advancing_def bounded_def seq_Success)

lemma bounded_seq: "bounded p \<Longrightarrow> bounded q \<Longrightarrow> bounded (seq p q)"
  by (fastforce simp: bounded_def seq_Success)

lemma advancing_alt: "list_all advancing ps \<Longrightarrow> advancing (alt ps)"
  unfolding advancing_def list_all_iff by (blast dest: alt_Success)

lemma bounded_alt: "list_all bounded ps \<Longrightarrow> bounded (alt ps)"
  unfolding bounded_def list_all_iff by (blast dest: alt_Success)

lemma bounded_opt_sc: "bounded p \<Longrightarrow> bounded (opt_sc p)"
  by (auto simp: bounded_def opt_sc_Success)

lemma bounded_rep_sc: "bounded (rep_sc p)"
  by (auto simp: bounded_def dest: rep_sc_length)

lemma advancing_list_sc: "advancing p \<Longrightarrow> advancing (list_sc p s)"
  by (simp add: list_sc_def advancing_seq1 bounded_rep_sc)

lemma advancing_lrec_sc: "advancing p \<Longrightarrow> advancing (lrec_sc p q f)"
proof -
  assume "advancing p"
  then have "advancing (seq p (rep_sc q))" by (simp add: advancing_seq1 bounded_rep_sc)
  then show ?thesis
    by (auto simp: advancing_def lrec_sc_def split: ParserOutput.splits sum.splits)
qed

lemma bounded_list_sc: "bounded p \<Longrightarrow> bounded (list_sc p s)"
  by (simp add: list_sc_def bounded_seq bounded_rep_sc)

lemma bounded_lrec_sc: "bounded p \<Longrightarrow> bounded (lrec_sc p q f)"
proof -
  assume "bounded p"
  then have "bounded (seq p (rep_sc q))" by (simp add: bounded_seq bounded_rep_sc)
  then show ?thesis
    by (auto simp: bounded_def lrec_sc_def split: ParserOutput.splits sum.splits)
qed

lemmas progress =
  advancing_bounded advancing_seq1 advancing_seq2 bounded_seq advancing_alt bounded_alt
  bounded_opt_sc bounded_rep_sc advancing_list_sc advancing_lrec_sc bounded_list_sc
  bounded_lrec_sc

lemma advancing_IDENTIFIER [simp]: "advancing IDENTIFIER"
  unfolding IDENTIFIER_def by (simp add: progress)

lemma advancing_OBJECT_MEMBER: "bounded T \<Longrightarrow> advancing (OBJECT_MEMBER T)"
  unfolding OBJECT_MEMBER_def by (simp add: progress)

lemma advancing_TYPE_TERM_pattern: "bounded T \<Longrightarrow> advancing (TYPE_TERM_pattern T)"
  unfolding TYPE_TERM_pattern_def by (simp add: progress advancing_OBJECT_MEMBER)

lemma advancing_TYPE_ARRAY_pattern: "advancing T \<Longrightarrow> advancing (TYPE_ARRAY_pattern T)"
  unfolding TYPE_ARRAY_pattern_def by (rule advancing_lrec_sc)

lemma advancing_TYPE_pattern: "advancing T \<Longrightarrow> advancing (TYPE_pattern T)"
  unfolding TYPE_pattern_def by (simp add: progress)

section \<open>Parsers that agree on short inputs\<close>

lemma agreeI: "(\<And>ts. length ts < n \<Longrightarrow> p ts = q ts) \<Longrightarrow> agree n p q"
  by (simp add: agree_def)

lemma agreeD: "agree n p q \<Longrightarrow> length ts < n \<Longrightarrow> p ts = q ts"
  by (simp add: agree_def)

lemma agree_refl [simp]: "agree n p p"
  by (simp add: agree_def)

lemma agree_apply_p: "agree n p p' \<Longrightarrow> agree n (apply_p p f) (apply_p p' f)"
  by (simp add: agree_def apply_p_def)

lemma agree_seq:
  assumes "agree n p p'" and "bounded p'" and "agree n q q'"
  shows "agree n (seq p q) (seq p' q')"
proof (rule agreeI)
  fix ts :: "Token list"
  assume len: "length ts < n"
  have eq: "p ts = p' ts" using assms(1) len by (rule agreeD)
  show "seq p q ts = seq p' q' ts"
  proof (cases "p' ts")
    case (Success a r e1)
    then have "length r \<le> length ts" using assms(2) by (auto simp: bounded_def)
    then have "q r = q' r" using assms(3) len by (auto intro: agreeD)
    then show ?thesis using eq Success by (simp add: seq_def)
  qed (simp_all add: eq seq_def)
qed

lemma agree_seq_advancing:
  assumes "agree (Suc n) p p'" and "advancing p'" and "agree n q q'"
  shows "agree (Suc n) (seq p q) (seq p' q')"
proof (rule agreeI)
  fix ts :: "Token list"
  assume len: "length ts < Suc n"
  have eq: "p ts = p' ts" using assms(1) len by (rule agreeD)
  show "seq p q ts = seq p' q' ts"
  proof (cases "p' ts")
    case (Success a r e1)
    then have "length r < length ts" using assms(2) by (auto simp: advancing_def)
    then have "q r = q' r" using assms(3) len by (auto intro: agreeD)
    then show ?thesis using eq Success by (simp add: seq_def)
  qed (simp_all add: eq seq_def)
qed

lemma agree_alt2:
  assumes "agree n p p'" and "agree n q q'"
  shows "agree n (alt2 p q) (alt2 p' q')"
proof (rule agreeI)
  fix ts :: "Token list"
  assume len: "length ts < n"
  have "p ts = p' ts" and "q ts = q' ts"
    using assms len by (auto intro: agreeD)
  then show "alt2 p q ts = alt2 p' q' ts"
    by (simp add: alt2_def cong: ParserOutput.case_cong)
qed

lemma agree_alt: "list_all2 (agree n) ps ps' \<Longrightarrow> agree n (alt ps) (alt ps')"
proof (induction ps arbitrary: ps' rule: alt.induct)
  case 1
  then show ?case by simp
next
  case (2 p)
  then show ?case by (auto simp: alt.simps list_all2_Cons1)
next
  case (3 p q ps)
  from "3.prems" obtain p' q' ps'' where ps': "ps' = p' # q' # ps''"
    and a: "agree n p p'" and rest: "list_all2 (agree n) (q # ps) (q' # ps'')"
    by (auto simp: list_all2_Cons1)
  from "3.IH" [OF rest] a show ?case
    unfolding ps' by (simp add: alt.simps agree_alt2)
qed

lemma agree_opt_sc: "agree n p p' \<Longrightarrow> agree n (opt_sc p) (opt_sc p')"
  by (simp add: agree_def opt_sc_def)

lemma rep_sc_cong_length:
  "(\<And>r. length r \<le> length ts \<Longrightarrow> p r = p' r) \<Longrightarrow> rep_sc p ts = rep_sc p' ts"
proof (induction p ts rule: rep_sc.induct)
  case (1 p ts)
  have eq: "p ts = p' ts" using "1.prems" by simp
  show ?case
  proof (cases "p' ts")
    case (Success v rest e1)
    show ?thesis
    proof (cases "length rest < length ts")
      case True
      have "rep_sc p rest = rep_sc p' rest"
        using "1.IH" [of v rest e1] eq Success True "1.prems" by simp
      then show ?thesis
        using eq Success True by (simp add: rep_sc.simps [of p ts] rep_sc.simps [of p' ts])
    next
      case False
      then show ?thesis
        using eq Success by (simp add: rep_sc.simps [of p ts] rep_sc.simps [of p' ts])
    qed
  next
    case (Failure e)
    then show ?thesis
      using eq by (simp add: rep_sc.simps [of p ts] rep_sc.simps [of p' ts])
  next
    case (Thrown m)
    then show ?thesis
      using eq by (simp add: rep_sc.simps [of p ts] rep_sc.simps [of p' ts])
  qed
qed

lemma agree_rep_sc: "agree n p p' \<Longrightarrow> agree n (rep_sc p) (rep_sc p')"
  unfolding agree_def by (auto intro!: rep_sc_cong_length)

lemma agree_list_sc:
  "agree n p p' \<Longrightarrow> bounded p' \<Longrightarrow> bounded s \<Longrightarrow> agree n (list_sc p s) (list_sc p' s)"
  unfolding list_sc_def
  by (intro agree_apply_p agree_seq agree_rep_sc bounded_rep_sc) simp_all

lemma agree_lrec_sc:
  "agree n p p' \<Longrightarrow> bounded p' \<Longrightarrow> agree n q q' \<Longrightarrow> agree n (lrec_sc p q f) (lrec_sc p' q' f)"
proof -
  assume "agree n p p'" "bounded p'" "agree n q q'"
  then have "agree n (seq p (rep_sc q)) (seq p' (rep_sc q'))"
    by (intro agree_seq agree_rep_sc)
  then show ?thesis
    by (simp add: agree_def lrec_sc_def)
qed

lemmas agreement =
  agree_apply_p agree_seq_advancing agree_seq agree_alt agree_opt_sc agree_rep_sc
  agree_list_sc agree_lrec_sc

lemma agree_OBJECT_MEMBER:
  "agree n T T' \<Longrightarrow> bounded T' \<Longrightarrow> agree n (OBJECT_MEMBER T) (OBJECT_MEMBER T')"
  unfolding OBJECT_MEMBER_def by (simp add: agreement progress)

lemma agree_TYPE_TERM_pattern:
  "agree n T T' \<Longrightarrow> bounded T' \<Longrightarrow>
   agree (Suc n) (TYPE_TERM_pattern T) (TYPE_TERM_pattern T')"
  unfolding TYPE_TERM_pattern_def
  by (simp add: agreement progress agree_OBJECT_MEMBER advancing_OBJECT_MEMBER)

lemma agree_TYPE_ARRAY_pattern:
  "agree n T T' \<Longrightarrow> bounded T' \<Longrightarrow> agree n (TYPE_ARRAY_pattern T) (TYPE_ARRAY_pattern T')"
  unfolding TYPE_ARRAY_pattern_def by (simp add: agreement progress)

lemma agree_TYPE_pattern:
  "agree n T T' \<Longrightarrow> bounded T' \<Longrightarrow> agree n (TYPE_pattern T) (TYPE_pattern T')"
  unfolding TYPE_pattern_def by (simp add: agreement progress)

section \<open>The type rules consume input\<close>

lemma type_rules_progress:
  "(\<forall>v r e. TYPE_TERM ts1 = Success v r e \<longrightarrow> length r < length ts1)"
  "(\<forall>v r e. TYPE_ARRAY ts2 = Success v r e \<longrightarrow> length r < length ts2)"
  "(\<forall>v r e. TYPE' ts3 = Success v r e \<longrightarrow> length r < length ts3)"
proof (induction ts1 and ts2 and ts3 rule: TYPE_TERM_TYPE_ARRAY_TYPE'.induct)
  case (1 ts)
  let ?T = "\<lambda>rest. if length rest < length ts then TYPE' rest else stackOverflow"
  have "bounded ?T"
    using 1 by (auto simp: bounded_def stackOverflow_def dest: less_imp_le split: if_splits)
  then have "advancing (TYPE_TERM_pattern ?T)" by (rule advancing_TYPE_TERM_pattern)
  then show ?case by (simp add: advancing_def TYPE_TERM.simps [of ts])
next
  case (2 ts)
  let ?T = "\<lambda>rest. if length rest \<le> length ts then TYPE_TERM rest else stackOverflow"
  have "advancing ?T"
    using 2 by (auto simp: advancing_def stackOverflow_def split: if_splits)
  then have "advancing (TYPE_ARRAY_pattern ?T)" by (rule advancing_TYPE_ARRAY_pattern)
  then show ?case by (simp add: advancing_def TYPE_ARRAY.simps [of ts])
next
  case (3 ts)
  let ?T = "\<lambda>rest. if length rest \<le> length ts then TYPE_ARRAY rest else stackOverflow"
  have "advancing ?T"
    using 3 by (auto simp: advancing_def stackOverflow_def split: if_splits)
  then have "advancing (TYPE_pattern ?T)" by (rule advancing_TYPE_pattern)
  then show ?case by (simp add: advancing_def TYPE'.simps [of ts])
qed

lemma advancing_TYPE_TERM: "advancing TYPE_TERM"
  using type_rules_progress(1) by (simp add: advancing_def)

lemma advancing_TYPE_ARRAY: "advancing TYPE_ARRAY"
  using type_rules_progress(2) by (simp add: advancing_def)

lemma advancing_TYPE: "advancing TYPE'"
  using type_rules_progress(3) by (simp add: advancing_def)

section \<open>The rules are their patterns\<close>

lemma TYPE_TERM_unfold: "TYPE_TERM = TYPE_TERM_pattern TYPE'"
proof
  fix ts :: "Token list"
  let ?T = "\<lambda>rest. if length rest < length ts then TYPE' rest else stackOverflow"
  have "agree (length ts) ?T TYPE'" by (simp add: agree_def)
  then have "agree (Suc (length ts)) (TYPE_TERM_pattern ?T) (TYPE_TERM_pattern TYPE')"
    by (rule agree_TYPE_TERM_pattern) (simp add: advancing_bounded advancing_TYPE)
  then have "TYPE_TERM_pattern ?T ts = TYPE_TERM_pattern TYPE' ts"
    by (rule agreeD) simp
  then show "TYPE_TERM ts = TYPE_TERM_pattern TYPE' ts"
    by (simp add: TYPE_TERM.simps [of ts])
qed

lemma TYPE_ARRAY_unfold: "TYPE_ARRAY = TYPE_ARRAY_pattern TYPE_TERM"
proof
  fix ts :: "Token list"
  let ?T = "\<lambda>rest. if length rest \<le> length ts then TYPE_TERM rest else stackOverflow"
  have "agree (Suc (length ts)) ?T TYPE_TERM" by (simp add: agree_def)
  then have "agree (Suc (length ts)) (TYPE_ARRAY_pattern ?T) (TYPE_ARRAY_pattern TYPE_TERM)"
    by (rule agree_TYPE_ARRAY_pattern) (simp add: advancing_bounded advancing_TYPE_TERM)
  then have "TYPE_ARRAY_pattern ?T ts = TYPE_ARRAY_pattern TYPE_TERM ts"
    by (rule agreeD) simp
  then show "TYPE_ARRAY ts = TYPE_ARRAY_pattern TYPE_TERM ts"
    by (simp add: TYPE_ARRAY.simps [of ts])
qed

lemma TYPE_unfold: "TYPE' = TYPE_pattern TYPE_ARRAY"
proof
  fix ts :: "Token list"
  let ?T = "\<lambda>rest. if length rest \<le> length ts then TYPE_ARRAY rest else stackOverflow"
  have "agree (Suc (length ts)) ?T TYPE_ARRAY" by (simp add: agree_def)
  then have "agree (Suc (length ts)) (TYPE_pattern ?T) (TYPE_pattern TYPE_ARRAY)"
    by (rule agree_TYPE_pattern) (simp add: advancing_bounded advancing_TYPE_ARRAY)
  then have "TYPE_pattern ?T ts = TYPE_pattern TYPE_ARRAY ts"
    by (rule agreeD) simp
  then show "TYPE' ts = TYPE_pattern TYPE_ARRAY ts"
    by (simp add: TYPE'.simps [of ts])
qed

section \<open>Running the parser on a token list\<close>

lemma TYPE_TERM_Nil: "TYPE_TERM [] = TYPE_TERM_pattern TYPE' []"
  by (simp add: TYPE_TERM_unfold [symmetric])

lemma TYPE_TERM_Cons: "TYPE_TERM (t # ts) = TYPE_TERM_pattern TYPE' (t # ts)"
  by (simp add: TYPE_TERM_unfold [symmetric])

lemma TYPE_ARRAY_Nil: "TYPE_ARRAY [] = TYPE_ARRAY_pattern TYPE_TERM []"
  by (simp add: TYPE_ARRAY_unfold [symmetric])

lemma TYPE_ARRAY_Cons: "TYPE_ARRAY (t # ts) = TYPE_ARRAY_pattern TYPE_TERM (t # ts)"
  by (simp add: TYPE_ARRAY_unfold [symmetric])

lemma TYPE_Nil: "TYPE' [] = TYPE_pattern TYPE_ARRAY []"
  by (simp add: TYPE_unfold [symmetric])

lemma TYPE_Cons: "TYPE' (t # ts) = TYPE_pattern TYPE_ARRAY (t # ts)"
  by (simp add: TYPE_unfold [symmetric])

lemmas rep_sc_Nil = rep_sc.simps [of _ "[]"]

lemmas rep_sc_Cons = rep_sc.simps [of _ "t # ts" for t ts]

lemmas evaluation =
  mkToken_def TYPE_TERM_Nil TYPE_TERM_Cons TYPE_ARRAY_Nil TYPE_ARRAY_Cons TYPE_Nil TYPE_Cons
  rep_sc_Nil rep_sc_Cons alt.simps
  TYPE_pattern_def TYPE_ARRAY_pattern_def TYPE_TERM_pattern_def OBJECT_MEMBER_def
  IDENTIFIER_def DECL_def STAT_def PROGRAM_def
  lrec_sc_def list_sc_def seq_def alt2_def apply_p_def opt_sc_def str_def tok_def
  unableToConsume_def furthest_def applyTypeLrec_def entityStep_def
  applyNull_def applyNumber_def applyString_def applyBoolean_def applyLiteralType_def
  applyProgram_def mixinsOf_def membersOf_def List.map_filter_def useStrictText_def

lemma str_Failure: "str s ts = Failure e \<longleftrightarrow> \<not> startsWith s ts \<and> e = unableToConsume ts"
  by (auto simp: str_def startsWith_def split: list.splits)

lemma str_Success_startsWith: "str s ts = Success v r e \<Longrightarrow> startsWith s ts"
  by (auto simp: str_def startsWith_def split: list.splits if_splits)

lemma wellFormed_simps [simp]:
  "wellFormed (PrimitiveType n)"
  "wellFormed (LiteralType s)"
  "wellFormed (OptionalType t) \<longleftrightarrow> \<not> isOptionalType t \<and> wellFormed t"
  "wellFormed (ParenType t) \<longleftrightarrow> wellFormed t"
  "\<not> wellFormed (ArrayType ro None)"
  "wellFormed (ArrayType ro (Some t)) \<longleftrightarrow> wellFormed t"
  "wellFormed (UnionType ts) \<longleftrightarrow>
     2 \<le> length ts \<and> list_all (\<lambda>x. \<not> isUnionType x) ts \<and> list_all wellFormed ts"
  "wellFormed (TypeReference entity args) \<longleftrightarrow> list_all wellFormed args"
  "wellFormed (DecoratedGenericType t s) \<longleftrightarrow> wellFormed t"
  "wellFormed (ObjectType ex mixins members) \<longleftrightarrow>
     list_all wellFormed mixins \<and> list_all wellFormedMember members"
  "wellFormedMember (Prop ro name opt t) \<longleftrightarrow> wellFormed t"
  "wellFormedMember (Indexer ro k kt vt) \<longleftrightarrow> wellFormed kt \<and> wellFormed vt"
  by (auto simp: wellFormed_def wellFormedMember_def wellFormedNode_def list_all_iff)

section \<open>What the combinators return\<close>

lemma resultsD: "results p Q \<Longrightarrow> p ts = Success v r e \<Longrightarrow> Q v"
  by (auto simp: results_def)

lemma rep_sc_list_all:
  "results p Q \<Longrightarrow> rep_sc p ts = Success vs r e \<Longrightarrow> list_all Q vs"
proof (induction p ts arbitrary: vs r e rule: rep_sc.induct)
  case (1 p ts)
  from "1.prems"(2) show ?case
    by (subst (asm) rep_sc.simps)
       (auto split: ParserOutput.splits if_splits
          dest: "1.IH" [OF _ _ "1.prems"(1)] resultsD [OF "1.prems"(1)])
qed

lemma results_rep_sc: "results p Q \<Longrightarrow> results (rep_sc p) (list_all Q)"
  unfolding results_def [of "rep_sc p"] by (blast intro: rep_sc_list_all)

lemma results_apply_p: "results p (\<lambda>v. Q (f v)) \<Longrightarrow> results (apply_p p f) Q"
  by (auto simp: results_def apply_p_Success)

lemma results_seq:
  "results p Qa \<Longrightarrow> results q Qb \<Longrightarrow> results (seq p q) (\<lambda>v. Qa (fst v) \<and> Qb (snd v))"
  unfolding results_def seq_Success by fastforce

lemma results_alt: "list_all (\<lambda>p. results p Q) ps \<Longrightarrow> results (alt ps) Q"
  unfolding results_def list_all_iff by (blast dest: alt_Success)

lemma results_opt_sc:
  "results p Q \<Longrightarrow> results (opt_sc p) (\<lambda>v. case v of None \<Rightarrow> True | Some a \<Rightarrow> Q a)"
  unfolding results_def opt_sc_Success by fastforce

lemma results_weaken: "results p Q \<Longrightarrow> (\<And>v. Q v \<Longrightarrow> Q' v) \<Longrightarrow> results p Q'"
  by (auto simp: results_def)

lemma results_any: "results p (\<lambda>v. True)"
  by (simp add: results_def)

lemma results_list_sc: "results p Q \<Longrightarrow> results (list_sc p s) (list_all Q)"
proof -
  assume p: "results p Q"
  have "results (apply_p (seq s p) snd) Q"
    by (rule results_apply_p, rule results_weaken [OF results_seq [OF results_any p]]) simp
  then have "results (rep_sc (apply_p (seq s p) snd)) (list_all Q)"
    by (rule results_rep_sc)
  from results_seq [OF p this] show ?thesis
    unfolding list_sc_def
    by (intro results_apply_p) (auto elim!: results_weaken)
qed

lemma lrecFold_invariant:
  assumes step: "\<And>a b c. Qa a \<Longrightarrow> Qb b \<Longrightarrow> f a b = Inr c \<Longrightarrow> Qa c"
  shows "Qa a \<Longrightarrow> list_all Qb bs \<Longrightarrow> lrecFold f a bs = Inr v \<Longrightarrow> Qa v"
proof (induction bs arbitrary: a)
  case Nil
  then show ?case by simp
next
  case (Cons b bs)
  then show ?case by (auto split: sum.splits dest: step)
qed

lemma results_lrec_sc:
  assumes p: "results p Qa" and q: "results q Qb"
    and step: "\<And>a b c. Qa a \<Longrightarrow> Qb b \<Longrightarrow> f a b = Inr c \<Longrightarrow> Qa c"
  shows "results (lrec_sc p q f) Qa"
proof -
  have pq: "results (seq p (rep_sc q)) (\<lambda>v. Qa (fst v) \<and> list_all Qb (snd v))"
    by (intro results_seq results_rep_sc p q)
  show ?thesis
    unfolding results_def
  proof (intro allI impI)
    fix ts v r e
    assume "lrec_sc p q f ts = Success v r e"
    then obtain a bs e' where s: "seq p (rep_sc q) ts = Success (a, bs) r e'"
      and fold: "lrecFold f a bs = Inr v"
      by (auto simp: lrec_sc_def split: ParserOutput.splits sum.splits prod.splits)
    from resultsD [OF pq s] have a: "Qa a" and bs: "list_all Qb bs" by simp_all
    show "Qa v"
    proof (rule lrecFold_invariant [where Qa = Qa and Qb = Qb and f = f])
      show "\<And>a b c. Qa a \<Longrightarrow> Qb b \<Longrightarrow> f a b = Inr c \<Longrightarrow> Qa c" by (rule step)
    qed (fact+)
  qed
qed

section \<open>The type rules build well-formed trees\<close>

lemma resultsI: "(\<And>ts v r e. p ts = Success v r e \<Longrightarrow> Q v) \<Longrightarrow> results p Q"
  by (auto simp: results_def)

lemmas inversion =
  apply_p_Success seq_Success str_Success tok_Success opt_sc_Success

lemma wellFormed_applyOptionalType:
  "wellFormed t \<Longrightarrow> wellFormed (applyOptionalType (q, t)) \<and> \<not> isUnionType (applyOptionalType (q, t))"
  by (cases t) auto

lemma list_all_mixinsOf:
  "list_all (\<lambda>m. case m of Inl t \<Rightarrow> P t | Inr m \<Rightarrow> Q m) ms \<Longrightarrow> list_all P (mixinsOf ms)"
  by (induction ms) (auto simp: mixinsOf_def List.map_filter_def split: sum.splits)

lemma list_all_membersOf:
  "list_all (\<lambda>m. case m of Inl t \<Rightarrow> P t | Inr m \<Rightarrow> Q m) ms \<Longrightarrow> list_all Q (membersOf ms)"
  by (induction ms) (auto simp: membersOf_def List.map_filter_def split: sum.splits)

lemma wellFormed_OBJECT_MEMBER:
  assumes T: "results T wellFormed"
  shows "results (OBJECT_MEMBER T)
           (\<lambda>m. case m of Inl t \<Rightarrow> wellFormed t | Inr m \<Rightarrow> wellFormedMember m)"
  unfolding OBJECT_MEMBER_def
  by (rule resultsI) (auto dest!: alt_Success resultsD [OF T] simp: inversion)

lemma wellFormed_TYPE_TERM_pattern:
  assumes T: "results T wellFormed"
  shows "results (TYPE_TERM_pattern T) (\<lambda>t. wellFormed t \<and> \<not> isUnionType t)"
  unfolding TYPE_TERM_pattern_def
  by (rule resultsI)
     (auto dest!: alt_Success resultsD [OF T] resultsD [OF results_list_sc [OF T]]
        resultsD [OF results_list_sc [OF wellFormed_OBJECT_MEMBER [OF T]]]
      simp: inversion applyNull_def applyNumber_def applyString_def
        applyBoolean_def applyLiteralType_def wellFormed_applyOptionalType
        list_all_mixinsOf list_all_membersOf
      simp del: applyOptionalType.simps)

lemma wellFormed_applyTypeLrec_array:
  "wellFormed a \<Longrightarrow> applyTypeLrec a (ArrayType False None) = Inr c \<Longrightarrow>
   wellFormed c \<and> \<not> isUnionType c"
  by (auto simp: applyTypeLrec_def)

lemma wellFormed_TYPE_ARRAY_pattern:
  assumes T: "results T (\<lambda>t. wellFormed t \<and> \<not> isUnionType t)"
  shows "results (TYPE_ARRAY_pattern T) (\<lambda>t. wellFormed t \<and> \<not> isUnionType t)"
  unfolding TYPE_ARRAY_pattern_def
proof (rule results_lrec_sc [OF T])
  show "results (apply_p (seq (str ''['') (str '']'')) applyArrayTypeLrec)
          (\<lambda>b. b = ArrayType False None)"
    by (rule resultsI) (auto simp: apply_p_Success)
qed (auto dest: wellFormed_applyTypeLrec_array)

lemma wellFormed_applyTypeLrec_union:
  "wellFormed a \<Longrightarrow> wellFormed t \<Longrightarrow> \<not> isUnionType t \<Longrightarrow>
   applyTypeLrec a (UnionType [t]) = Inr c \<Longrightarrow> wellFormed c"
  by (cases a) (auto simp: applyTypeLrec_def)

lemma wellFormed_TYPE_pattern:
  assumes T: "results T (\<lambda>t. wellFormed t \<and> \<not> isUnionType t)"
  shows "results (TYPE_pattern T) wellFormed"
  unfolding TYPE_pattern_def
proof (rule results_lrec_sc)
  show "results (apply_p (seq (opt_sc (str ''|'')) T) applyUnionHead) wellFormed"
    by (rule resultsI) (auto simp: inversion dest!: resultsD [OF T])
  show "results (apply_p (seq (str ''|'') T) applyUnionTypeLrec)
          (\<lambda>b. \<exists>t. b = UnionType [t] \<and> wellFormed t \<and> \<not> isUnionType t)"
    by (rule resultsI) (auto simp: inversion dest!: resultsD [OF T])
qed (auto dest: wellFormed_applyTypeLrec_union)

lemma results_type_rules:
  assumes tm: "\<And>T. results T Q3 \<Longrightarrow> results (TYPE_TERM_pattern T) Q1"
    and ar: "\<And>T. results T Q1 \<Longrightarrow> results (TYPE_ARRAY_pattern T) Q2"
    and ty: "\<And>T. results T Q2 \<Longrightarrow> results (TYPE_pattern T) Q3"
  shows "results TYPE_TERM Q1 \<and> results TYPE_ARRAY Q2 \<and> results TYPE' Q3"
proof -
  have "(\<forall>v r e. TYPE_TERM ts1 = Success v r e \<longrightarrow> Q1 v)"
    and "(\<forall>v r e. TYPE_ARRAY ts2 = Success v r e \<longrightarrow> Q2 v)"
    and "(\<forall>v r e. TYPE' ts3 = Success v r e \<longrightarrow> Q3 v)" for ts1 ts2 ts3
  proof (induction ts1 and ts2 and ts3 rule: TYPE_TERM_TYPE_ARRAY_TYPE'.induct)
    case (1 ts)
    let ?T = "\<lambda>rest. if length rest < length ts then TYPE' rest else stackOverflow"
    have "results ?T Q3"
      using 1 by (auto simp: results_def stackOverflow_def split: if_splits)
    then have "results (TYPE_TERM_pattern ?T) Q1" by (rule tm)
    then show ?case by (simp add: results_def TYPE_TERM.simps [of ts])
  next
    case (2 ts)
    let ?T = "\<lambda>rest. if length rest \<le> length ts then TYPE_TERM rest else stackOverflow"
    have "results ?T Q1"
      using 2 by (auto simp: results_def stackOverflow_def split: if_splits)
    then have "results (TYPE_ARRAY_pattern ?T) Q2" by (rule ar)
    then show ?case by (simp add: results_def TYPE_ARRAY.simps [of ts])
  next
    case (3 ts)
    let ?T = "\<lambda>rest. if length rest \<le> length ts then TYPE_ARRAY rest else stackOverflow"
    have "results ?T Q2"
      using 3 by (auto simp: results_def stackOverflow_def split: if_splits)
    then have "results (TYPE_pattern ?T) Q3" by (rule ty)
    then show ?case by (simp add: results_def TYPE'.simps [of ts])
  qed
  then show ?thesis by (simp add: results_def)
qed

lemma wellFormed_type_rules:
  "results TYPE_TERM (\<lambda>t. wellFormed t \<and> \<not> isUnionType t)
   \<and> results TYPE_ARRAY (\<lambda>t. wellFormed t \<and> \<not> isUnionType t)
   \<and> results TYPE' wellFormed"
  by (rule results_type_rules)
     (fact wellFormed_TYPE_TERM_pattern wellFormed_TYPE_ARRAY_pattern wellFormed_TYPE_pattern)+

lemma wellFormed_node:
  "wellFormed t \<Longrightarrow> u \<in> set (typeNodes t) \<Longrightarrow> wellFormedNode u"
  by (simp add: wellFormed_def list_all_iff)

section \<open>No exception leaves the grammar\<close>

lemma noThrowD: "noThrow p \<Longrightarrow> p ts \<noteq> Thrown m"
  by (simp add: noThrow_def)

lemma noThrow_str: "noThrow (str s)"
  by (simp add: noThrow_def)

lemma noThrow_tok: "noThrow (tok k)"
  by (simp add: noThrow_def)

lemma noThrow_apply_p: "noThrow p \<Longrightarrow> noThrow (apply_p p f)"
  by (simp add: noThrow_def apply_p_Thrown)

lemma noThrow_seq: "noThrow p \<Longrightarrow> noThrow q \<Longrightarrow> noThrow (seq p q)"
  by (simp add: noThrow_def seq_Thrown)

lemma noThrow_alt: "list_all noThrow ps \<Longrightarrow> noThrow (alt ps)"
  unfolding noThrow_def list_all_iff by (blast dest: alt_Thrown)

lemma noThrow_opt_sc: "noThrow p \<Longrightarrow> noThrow (opt_sc p)"
  by (simp add: noThrow_def opt_sc_Thrown)

lemma rep_sc_not_Thrown: "noThrow p \<Longrightarrow> rep_sc p ts \<noteq> Thrown m"
proof (induction p ts rule: rep_sc.induct)
  case (1 p ts)
  show ?case
    using "1.prems" "1.IH"
    by (subst rep_sc.simps) (auto simp: noThrow_def split: ParserOutput.splits)
qed

lemma noThrow_rep_sc: "noThrow p \<Longrightarrow> noThrow (rep_sc p)"
  unfolding noThrow_def [of "rep_sc p"] by (blast dest: rep_sc_not_Thrown)

lemma noThrow_list_sc: "noThrow p \<Longrightarrow> noThrow s \<Longrightarrow> noThrow (list_sc p s)"
  by (simp add: list_sc_def noThrow_apply_p noThrow_seq noThrow_rep_sc)

lemma lrecFold_Inr:
  assumes step: "\<And>a b. Qb b \<Longrightarrow> \<exists>c. f a b = Inr c"
  shows "list_all Qb bs \<Longrightarrow> \<exists>v. lrecFold f a bs = Inr v"
proof (induction bs arbitrary: a)
  case Nil
  then show ?case by simp
next
  case (Cons b bs)
  from Cons.prems have "Qb b" and bs: "list_all Qb bs" by simp_all
  from step [OF \<open>Qb b\<close>] obtain c where "f a b = Inr c" by blast
  with Cons.IH [OF bs, of c] show ?case by simp
qed

lemma noThrow_lrec_sc:
  assumes p: "noThrow p" and q: "noThrow q" and r: "results q Qb"
    and step: "\<And>a b. Qb b \<Longrightarrow> \<exists>c. f a b = Inr c"
  shows "noThrow (lrec_sc p q f)"
  unfolding noThrow_def
proof (intro allI notI)
  fix ts m
  assume t: "lrec_sc p q f ts = Thrown m"
  have "seq p (rep_sc q) ts \<noteq> Thrown m"
    using noThrow_seq [OF p noThrow_rep_sc [OF q]] by (rule noThrowD)
  with t obtain a bs rest e where s: "seq p (rep_sc q) ts = Success (a, bs) rest e"
    and fold: "lrecFold f a bs = Inl m"
    by (auto simp: lrec_sc_def split: ParserOutput.splits sum.splits prod.splits)
  have "results (seq p (rep_sc q)) (\<lambda>v. True \<and> list_all Qb (snd v))"
    by (intro results_seq results_rep_sc r results_any)
  from resultsD [OF this s] have "list_all Qb bs" by simp
  then have "\<exists>v. lrecFold f a bs = Inr v"
  proof (rule lrecFold_Inr [where Qb = Qb and f = f, rotated])
    show "\<And>a b. Qb b \<Longrightarrow> \<exists>c. f a b = Inr c" by (rule step)
  qed
  with fold show False by simp
qed

lemmas noThrows =
  noThrow_str noThrow_tok noThrow_apply_p noThrow_seq noThrow_alt noThrow_opt_sc
  noThrow_rep_sc noThrow_list_sc

lemma noThrow_IDENTIFIER: "noThrow IDENTIFIER"
  unfolding IDENTIFIER_def by (simp add: noThrows)

lemma noThrow_OBJECT_MEMBER: "noThrow T \<Longrightarrow> noThrow (OBJECT_MEMBER T)"
  unfolding OBJECT_MEMBER_def by (simp add: noThrows noThrow_IDENTIFIER)

lemma noThrow_TYPE_TERM_pattern: "noThrow T \<Longrightarrow> noThrow (TYPE_TERM_pattern T)"
  unfolding TYPE_TERM_pattern_def
  by (simp add: noThrows noThrow_IDENTIFIER noThrow_OBJECT_MEMBER)

lemma noThrow_TYPE_ARRAY_pattern: "noThrow T \<Longrightarrow> noThrow (TYPE_ARRAY_pattern T)"
  unfolding TYPE_ARRAY_pattern_def
proof (rule noThrow_lrec_sc)
  show "results (apply_p (seq (str ''['') (str '']'')) applyArrayTypeLrec)
          (\<lambda>b. b = ArrayType False None)"
    by (rule resultsI) (auto simp: apply_p_Success)
qed (auto simp: noThrows applyTypeLrec_def)

lemma noThrow_TYPE_pattern: "noThrow T \<Longrightarrow> noThrow (TYPE_pattern T)"
  unfolding TYPE_pattern_def
proof (rule noThrow_lrec_sc)
  show "results (apply_p (seq (str ''|'') T) applyUnionTypeLrec) (\<lambda>b. \<exists>t. b = UnionType [t])"
    by (rule resultsI) (auto simp: apply_p_Success)
qed (auto simp: noThrows applyTypeLrec_def split: Type.splits)

lemma type_rules_noThrow:
  "(\<forall>m. TYPE_TERM ts1 \<noteq> Thrown m)"
  "(\<forall>m. TYPE_ARRAY ts2 \<noteq> Thrown m)"
  "(\<forall>m. TYPE' ts3 \<noteq> Thrown m)"
proof (induction ts1 and ts2 and ts3 rule: TYPE_TERM_TYPE_ARRAY_TYPE'.induct)
  case (1 ts)
  let ?T = "\<lambda>rest. if length rest < length ts then TYPE' rest else Failure UnexpectedEndOfInput"
  have b: "bounded ?T"
    using advancing_TYPE by (auto simp: bounded_def advancing_def dest: less_imp_le split: if_splits)
  have "agree (length ts) TYPE' ?T" by (simp add: agree_def)
  then have "agree (Suc (length ts)) (TYPE_TERM_pattern TYPE') (TYPE_TERM_pattern ?T)"
    using b by (rule agree_TYPE_TERM_pattern)
  then have eq: "TYPE_TERM ts = TYPE_TERM_pattern ?T ts"
    unfolding TYPE_TERM_unfold by (rule agreeD) simp
  have "noThrow ?T" using 1 by (simp add: noThrow_def)
  then have "noThrow (TYPE_TERM_pattern ?T)" by (rule noThrow_TYPE_TERM_pattern)
  then show ?case unfolding eq by (simp add: noThrow_def)
next
  case (2 ts)
  let ?T = "\<lambda>rest. if length rest \<le> length ts then TYPE_TERM rest
                   else Failure UnexpectedEndOfInput"
  have b: "bounded ?T"
    using advancing_TYPE_TERM
    by (auto simp: bounded_def advancing_def dest: less_imp_le split: if_splits)
  have "agree (Suc (length ts)) TYPE_TERM ?T" by (simp add: agree_def)
  then have "agree (Suc (length ts)) (TYPE_ARRAY_pattern TYPE_TERM) (TYPE_ARRAY_pattern ?T)"
    using b by (rule agree_TYPE_ARRAY_pattern)
  then have eq: "TYPE_ARRAY ts = TYPE_ARRAY_pattern ?T ts"
    unfolding TYPE_ARRAY_unfold by (rule agreeD) simp
  have "noThrow ?T" using 2 by (simp add: noThrow_def)
  then have "noThrow (TYPE_ARRAY_pattern ?T)" by (rule noThrow_TYPE_ARRAY_pattern)
  then show ?case unfolding eq by (simp add: noThrow_def)
next
  case (3 ts)
  let ?T = "\<lambda>rest. if length rest \<le> length ts then TYPE_ARRAY rest
                   else Failure UnexpectedEndOfInput"
  have b: "bounded ?T"
    using advancing_TYPE_ARRAY
    by (auto simp: bounded_def advancing_def dest: less_imp_le split: if_splits)
  have "agree (Suc (length ts)) TYPE_ARRAY ?T" by (simp add: agree_def)
  then have "agree (Suc (length ts)) (TYPE_pattern TYPE_ARRAY) (TYPE_pattern ?T)"
    using b by (rule agree_TYPE_pattern)
  then have eq: "TYPE' ts = TYPE_pattern ?T ts"
    unfolding TYPE_unfold by (rule agreeD) simp
  have "noThrow ?T" using 3 by (simp add: noThrow_def)
  then have "noThrow (TYPE_pattern ?T)" by (rule noThrow_TYPE_pattern)
  then show ?case unfolding eq by (simp add: noThrow_def)
qed

lemma noThrow_TYPE: "noThrow TYPE'"
  using type_rules_noThrow(3) by (simp add: noThrow_def)

lemma noThrow_DECL: "noThrow DECL"
  unfolding DECL_def by (simp add: noThrows noThrow_IDENTIFIER noThrow_TYPE)

lemma noThrow_STAT: "noThrow STAT"
  unfolding STAT_def by (simp add: noThrows noThrow_DECL)


lemma advancing_DECL: "advancing DECL"
  unfolding DECL_def by (simp add: progress advancing_TYPE)

lemma advancing_STAT: "advancing STAT"
  unfolding STAT_def by (simp add: progress advancing_DECL)

section \<open>Repetition\<close>

lemma rep_sc_stops:
  "rep_sc p ts = Success vs r e \<Longrightarrow> advancing p \<Longrightarrow> \<exists>e'. p r = Failure e'"
proof (induction p ts arbitrary: vs r e rule: rep_sc.induct)
  case (1 p ts)
  from "1.prems"(1) show ?case
    by (subst (asm) rep_sc.simps)
       (auto split: ParserOutput.splits if_splits simp: advancing_def
          dest: "1.IH" [OF _ _ _ "1.prems"(2)] "1.prems"(2) [unfolded advancing_def, rule_format])
qed

lemma rep_sc_Failure_step: "p ts = Failure e \<Longrightarrow> rep_sc p ts = Success [] ts (Some e)"
  by (simp add: rep_sc.simps [of p ts])

lemma rep_sc_Success_step:
  "p ts = Success v r1 e1 \<Longrightarrow> length r1 < length ts \<Longrightarrow> rep_sc p r1 = Success vs r e2 \<Longrightarrow>
   rep_sc p ts = Success (v # vs) r (betterError e1 e2)"
  by (simp add: rep_sc.simps [of p ts])

lemma rep_sc_succeeds: "noThrow p \<Longrightarrow> \<exists>vs r e. rep_sc p ts = Success vs r e"
  using rep_sc_Failure [of p ts] rep_sc_not_Thrown [of p ts]
  by (cases "rep_sc p ts") auto


section \<open>Object type literals\<close>

text \<open>An object type literal: the rule of \<^verbatim>\<open>TYPE_TERM\<close> that starts at an opening brace.\<close>

lemma TYPE_TERM_brace:
  assumes k: "kind lb = OtherKind" and t: "text lb = ''{''"
    and s: "TYPE_TERM (lb # rest) = Success v r e"
  shows "\<exists>mixins members. v = ObjectType (startsWith ''|'' rest) mixins members"
proof -
  from s have "TYPE_TERM_pattern TYPE' (lb # rest) = Success v r e"
    by (simp add: TYPE_TERM_unfold)
  then obtain e' where "apply_p
         (seq (str ''{'')
            (seq (opt_sc (str ''|''))
               (seq (opt_sc (list_sc (OBJECT_MEMBER TYPE') (str '','')))
                  (seq (opt_sc (str '',''))
                     (seq (opt_sc (str ''|''))
                        (str ''}''))))))
         applyObjectType (lb # rest) = Success v r e'"
    using k t
    by (auto simp: TYPE_TERM_pattern_def IDENTIFIER_def list_sc_def
          dest!: alt_Success simp: inversion)
  then obtain a where a: "seq (str ''{'')
            (seq (opt_sc (str ''|''))
               (seq (opt_sc (list_sc (OBJECT_MEMBER TYPE') (str '','')))
                  (seq (opt_sc (str '',''))
                     (seq (opt_sc (str ''|''))
                        (str ''}''))))) (lb # rest) = Success a r e'"
    and v: "v = applyObjectType a"
    unfolding apply_p_Success by blast
  from a obtain x r0 e0 b e1 where x: "str ''{'' (lb # rest) = Success x r0 e0"
    and b: "seq (opt_sc (str ''|''))
               (seq (opt_sc (list_sc (OBJECT_MEMBER TYPE') (str '','')))
                  (seq (opt_sc (str '',''))
                     (seq (opt_sc (str ''|''))
                        (str ''}'')))) r0 = Success b r e1"
    and ab: "a = (x, b)"
    unfolding seq_Success [of "str ''{''"] by blast
  from x have r0: "r0 = rest" by (simp add: str_Success)
  from b obtain isExact r1 e2 tail e3 where
    opt: "opt_sc (str ''|'') r0 = Success isExact r1 e2" and bt: "b = (isExact, tail)"
    unfolding seq_Success [of "opt_sc (str ''|'')"] by blast
  from opt have "(isExact \<noteq> None) = startsWith ''|'' rest"
    unfolding r0
    by (auto simp: opt_sc_Success str_Failure dest: str_Success_startsWith)
  with v ab bt show ?thesis
    by (cases tail) auto
qed

section \<open>Where the type rules stop\<close>

lemma rep_sc_remainder:
  "rep_sc p ts = Success vs r e \<Longrightarrow> P ts \<Longrightarrow>
   (\<forall>ts v r e. p ts = Success v r e \<longrightarrow> P r) \<Longrightarrow> P r"
proof (induction p ts arbitrary: vs r e rule: rep_sc.induct)
  case (1 p ts)
  note step = "1.prems"(3)
  show ?case
  proof (cases "p ts")
    case (Success v rest e1)
    show ?thesis
    proof (cases "length rest < length ts")
      case True
      from "1.prems"(1) Success True obtain vs' e2 where rec: "rep_sc p rest = Success vs' r e2"
        by (subst (asm) rep_sc.simps) (auto split: ParserOutput.splits)
      have "P rest" using Success step by blast
      then show ?thesis by (rule "1.IH" [OF Success True rec _ step])
    next
      case False
      from "1.prems"(1) Success False have "r = ts"
        by (subst (asm) rep_sc.simps) simp
      with "1.prems"(2) show ?thesis by simp
    qed
  next
    case (Failure e1)
    with "1.prems"(1) have "r = ts"
      by (subst (asm) rep_sc.simps) simp
    with "1.prems"(2) show ?thesis by simp
  next
    case (Thrown m)
    with "1.prems"(1) show ?thesis
      by (subst (asm) rep_sc.simps) simp
  qed
qed

lemma TYPE_ARRAY_stops:
  assumes "TYPE_ARRAY ts = Success t r e"
  shows "\<exists>e'. apply_p (seq (str ''['') (str '']'')) applyArrayTypeLrec r = Failure e'"
proof -
  let ?op = "apply_p (seq (str ''['') (str '']'')) applyArrayTypeLrec"
  from assms obtain a bs e1 where "seq TYPE_TERM (rep_sc ?op) ts = Success (a, bs) r e1"
    by (auto simp: TYPE_ARRAY_unfold TYPE_ARRAY_pattern_def lrec_sc_def
          split: ParserOutput.splits sum.splits prod.splits)
  then obtain r1 e2 where "rep_sc ?op r1 = Success bs r e2"
    by (auto simp: seq_Success)
  moreover have "advancing ?op" by (simp add: progress)
  ultimately show ?thesis by (rule rep_sc_stops)
qed

lemma TYPE_stops:
  assumes "TYPE' ts = Success t r e"
  shows "(\<exists>e'. apply_p (seq (str ''['') (str '']'')) applyArrayTypeLrec r = Failure e')
       \<and> (\<exists>e'. apply_p (seq (str ''|'') TYPE_ARRAY) applyUnionTypeLrec r = Failure e')"
proof -
  let ?P = "\<lambda>r. \<exists>e'. apply_p (seq (str ''['') (str '']'')) applyArrayTypeLrec r = Failure e'"
  let ?hd = "apply_p (seq (opt_sc (str ''|'')) TYPE_ARRAY) applyUnionHead"
  let ?op = "apply_p (seq (str ''|'') TYPE_ARRAY) applyUnionTypeLrec"
  from assms obtain a bs e1 where "seq ?hd (rep_sc ?op) ts = Success (a, bs) r e1"
    by (auto simp: TYPE_unfold TYPE_pattern_def lrec_sc_def
          split: ParserOutput.splits sum.splits prod.splits)
  then obtain r1 e2 e3 where hd: "?hd ts = Success a r1 e2"
    and rep: "rep_sc ?op r1 = Success bs r e3"
    by (auto simp: seq_Success)
  have "advancing ?op" by (simp add: progress advancing_TYPE_ARRAY)
  with rep have union: "\<exists>e'. ?op r = Failure e'" by (rule rep_sc_stops)
  from hd have start: "?P r1"
    by (auto simp: apply_p_Success seq_Success dest: TYPE_ARRAY_stops)
  have "\<forall>ts v r e. ?op ts = Success v r e \<longrightarrow> ?P r"
    by (auto simp: apply_p_Success seq_Success dest: TYPE_ARRAY_stops)
  with rep start have "?P r" by (rule rep_sc_remainder)
  with union show ?thesis by blast
qed

section \<open>Optional types\<close>

lemma TYPE_TERM_question:
  assumes "kind q = OtherKind" and "text q = ''?''"
  shows "TYPE' ts = Success t r e \<Longrightarrow>
           \<exists>e'. TYPE_TERM (q # ts) = Success (applyOptionalType (q, t)) r e'"
    and "TYPE' ts = Failure f \<Longrightarrow> \<exists>e'. TYPE_TERM (q # ts) = Failure e'"
  using assms
  by (simp_all add: TYPE_TERM_Cons TYPE_TERM_pattern_def alt.simps alt2_def apply_p_def seq_def
        str_def tok_def list_sc_def IDENTIFIER_def del: applyOptionalType.simps)

lemma TYPE_of_TYPE_TERM:
  assumes ns: "\<not> startsWith ''|'' ts"
    and tm: "TYPE_TERM ts = Success t r e"
    and arr: "apply_p (seq (str ''['') (str '']'')) applyArrayTypeLrec r = Failure e1"
    and un: "apply_p (seq (str ''|'') TYPE_ARRAY) applyUnionTypeLrec r = Failure e2"
  shows "\<exists>e'. TYPE' ts = Success t r e'"
proof -
  have bar: "str ''|'' ts = Failure (unableToConsume ts)"
    using ns by (simp add: str_Failure)
  have repA: "rep_sc (apply_p (seq (str ''['') (str '']'')) applyArrayTypeLrec) r
                = Success [] r (Some e1)"
    using arr by (rule rep_sc_Failure_step)
  have ta: "TYPE_ARRAY ts = Success t r (betterError e (Some e1))"
    by (simp add: TYPE_ARRAY_unfold TYPE_ARRAY_pattern_def lrec_sc_def seq_def tm repA)
  have repU: "rep_sc (apply_p (seq (str ''|'') TYPE_ARRAY) applyUnionTypeLrec) r
                = Success [] r (Some e2)"
    using un by (rule rep_sc_Failure_step)
  show ?thesis
    by (simp add: TYPE_unfold TYPE_pattern_def lrec_sc_def seq_def apply_p_def opt_sc_def
          bar ta repU)
qed

lemma TYPE_of_TYPE_TERM_Failure:
  assumes ns: "\<not> startsWith ''|'' ts" and tm: "TYPE_TERM ts = Failure e"
  shows "\<exists>e'. TYPE' ts = Failure e'"
proof -
  have bar: "str ''|'' ts = Failure (unableToConsume ts)"
    using ns by (simp add: str_Failure)
  have ta: "TYPE_ARRAY ts = Failure e"
    by (simp add: TYPE_ARRAY_unfold TYPE_ARRAY_pattern_def lrec_sc_def seq_def tm)
  show ?thesis
    by (simp add: TYPE_unfold TYPE_pattern_def lrec_sc_def seq_def apply_p_def opt_sc_def
          bar ta)
qed

lemma applyOptionalType_idem:
  "applyOptionalType (q1, applyOptionalType (q2, t)) = applyOptionalType (q2, t)"
  by (cases t) simp_all

lemma TYPE_question:
  assumes k: "kind q = OtherKind" and t: "text q = ''?''"
  shows "TYPE' ts = Success v r e \<Longrightarrow>
           \<exists>e'. TYPE' (q # ts) = Success (applyOptionalType (q, v)) r e'"
    and "TYPE' ts = Failure f \<Longrightarrow> \<exists>e'. TYPE' (q # ts) = Failure e'"
proof -
  have ns: "\<not> startsWith ''|'' (q # ts)"
    using t by (simp add: startsWith_def)
  {
    assume s: "TYPE' ts = Success v r e"
    from TYPE_TERM_question(1) [OF k t s] obtain e1
      where "TYPE_TERM (q # ts) = Success (applyOptionalType (q, v)) r e1" ..
    moreover from TYPE_stops [OF s] obtain e2 e3
      where "apply_p (seq (str ''['') (str '']'')) applyArrayTypeLrec r = Failure e2"
        and "apply_p (seq (str ''|'') TYPE_ARRAY) applyUnionTypeLrec r = Failure e3"
      by blast
    ultimately show "\<exists>e'. TYPE' (q # ts) = Success (applyOptionalType (q, v)) r e'"
      by (rule TYPE_of_TYPE_TERM [OF ns])
  }
  {
    assume fl: "TYPE' ts = Failure f"
    from TYPE_TERM_question(2) [OF k t fl] obtain e1 where "TYPE_TERM (q # ts) = Failure e1" ..
    then show "\<exists>e'. TYPE' (q # ts) = Failure e'"
      by (rule TYPE_of_TYPE_TERM_Failure [OF ns])
  }
qed

section \<open>The furthest error\<close>

lemma atLeastAsFar_refl [simp]: "atLeastAsFar e e"
  by (simp add: atLeastAsFar_def split: option.splits)







section \<open>Names of an import list\<close>






section \<open>The properties of the specification\<close>

text \<open>
  C1. In every tree the type parser returns, each union node has at least two element
  types and none of them is itself a union. \<^verbatim>\<open>A | B | C\<close> is one union of three elements;
  in \<^verbatim>\<open>(A | B) | C\<close> the parentheses keep the inner union apart, as the first of two
  elements.
\<close>

theorem union_types_are_flat:
  "(\<forall>ts t r e es.
      TYPE' ts = Success t r e \<and> UnionType es \<in> set (typeNodes t)
      \<longrightarrow> 2 \<le> length es \<and> list_all (\<lambda>x. \<not> isUnionType x) es)
   \<and> TYPE' [mkToken Identifier ''A'' 0, mkToken OtherKind ''|'' 2, mkToken Identifier ''B'' 4,
            mkToken OtherKind ''|'' 6, mkToken Identifier ''C'' 8]
     = Success
         (UnionType
            [TypeReference (Some (Name ''A'')) [], TypeReference (Some (Name ''B'')) [],
             TypeReference (Some (Name ''C'')) []])
         [] (Some UnexpectedEndOfInput)
   \<and> TYPE' [mkToken OtherKind ''('' 0, mkToken Identifier ''A'' 1, mkToken OtherKind ''|'' 3,
            mkToken Identifier ''B'' 5, mkToken OtherKind '')'' 6, mkToken OtherKind ''|'' 8,
            mkToken Identifier ''C'' 10]
     = Success
         (UnionType
            [ParenType
               (UnionType
                  [TypeReference (Some (Name ''A'')) [], TypeReference (Some (Name ''B'')) []]),
             TypeReference (Some (Name ''C'')) []])
         [] (Some UnexpectedEndOfInput)"
proof (intro conjI allI impI)
  fix ts t r e es
  assume h: "TYPE' ts = Success t r e \<and> UnionType es \<in> set (typeNodes t)"
  have "wellFormed t"
    using wellFormed_type_rules h by (auto dest: resultsD)
  then have "wellFormedNode (UnionType es)"
    using h by (auto intro: wellFormed_node)
  then show "2 \<le> length es" and "list_all (\<lambda>x. \<not> isUnionType x) es"
    by (simp_all add: wellFormedNode_def)
qed (simp_all add: evaluation)

theorem union_types_are_flat_witness:
  "TYPE' [mkToken Identifier ''A'' 0, mkToken OtherKind ''|'' 2, mkToken Identifier ''B'' 4]
     = Success
         (UnionType [TypeReference (Some (Name ''A'')) [], TypeReference (Some (Name ''B'')) []])
         [] (Some UnexpectedEndOfInput)
   \<and> UnionType [TypeReference (Some (Name ''A'')) [], TypeReference (Some (Name ''B'')) []]
       \<in> set (typeNodes
           (UnionType [TypeReference (Some (Name ''A'')) [], TypeReference (Some (Name ''B'')) []]))
   \<and> 2 \<le> length [TypeReference (Some (Name ''A'')) [], TypeReference (Some (Name ''B'')) []]
   \<and> list_all (\<lambda>x. \<not> isUnionType x)
        [TypeReference (Some (Name ''A'')) [], TypeReference (Some (Name ''B'')) []]"
proof -
  have h: "TYPE' [mkToken Identifier ''A'' 0, mkToken OtherKind ''|'' 2,
                  mkToken Identifier ''B'' 4]
     = Success
         (UnionType [TypeReference (Some (Name ''A'')) [], TypeReference (Some (Name ''B'')) []])
         [] (Some UnexpectedEndOfInput)"
    by (simp add: evaluation)
  have n: "UnionType [TypeReference (Some (Name ''A'')) [], TypeReference (Some (Name ''B'')) []]
       \<in> set (typeNodes
           (UnionType [TypeReference (Some (Name ''A'')) [], TypeReference (Some (Name ''B'')) []]))"
    by simp
  from union_types_are_flat h n show ?thesis by blast
qed

text \<open>
  C2. A second question mark changes nothing: \<^verbatim>\<open>??T\<close> and \<^verbatim>\<open>?T\<close> parse to the same tree and
  leave the same tokens (or both fail). For an atomic \<^verbatim>\<open>T\<close> that is not itself optional the
  tree is one optional node around the tree of \<^verbatim>\<open>T\<close>; and no tree the type parser returns
  has an optional node directly around another one.
\<close>

theorem double_optional_collapses:
  "(\<forall>q1 q2 ts.
      kind q1 = OtherKind \<and> text q1 = ''?'' \<and> kind q2 = OtherKind \<and> text q2 = ''?''
      \<longrightarrow> parsed (TYPE' (q1 # q2 # ts)) = parsed (TYPE' (q2 # ts)))
   \<and> (\<forall>q1 q2 ts t e.
      kind q1 = OtherKind \<and> text q1 = ''?'' \<and> kind q2 = OtherKind \<and> text q2 = ''?''
      \<and> TYPE_TERM ts = Success t [] e \<and> \<not> startsWith ''|'' ts \<and> \<not> isOptionalType t
      \<longrightarrow> parsed (TYPE' (q2 # ts)) = Some (OptionalType t, [])
          \<and> parsed (TYPE' (q1 # q2 # ts)) = Some (OptionalType t, []))
   \<and> (\<forall>ts t r e elementType.
      TYPE' ts = Success t r e
      \<longrightarrow> OptionalType (OptionalType elementType) \<notin> set (typeNodes t))"
proof -
  have same: "parsed (TYPE' (q1 # q2 # ts)) = parsed (TYPE' (q2 # ts))"
    if q: "kind q1 = OtherKind \<and> text q1 = ''?'' \<and> kind q2 = OtherKind \<and> text q2 = ''?''"
    for q1 q2 :: Token and ts
  proof (cases "TYPE' ts")
    case (Success v r e)
    from q TYPE_question(1) [OF _ _ Success, of q2] obtain e2
      where 2: "TYPE' (q2 # ts) = Success (applyOptionalType (q2, v)) r e2" by blast
    from q TYPE_question(1) [OF _ _ 2, of q1] obtain e1
      where "TYPE' (q1 # q2 # ts)
               = Success (applyOptionalType (q1, applyOptionalType (q2, v))) r e1" by blast
    with 2 show ?thesis
      by (simp add: parsed_def applyOptionalType_idem del: applyOptionalType.simps)
  next
    case (Failure f)
    from q TYPE_question(2) [OF _ _ Failure, of q2] obtain e2
      where 2: "TYPE' (q2 # ts) = Failure e2" by blast
    from q TYPE_question(2) [OF _ _ 2, of q1] obtain e1
      where "TYPE' (q1 # q2 # ts) = Failure e1" by blast
    with 2 show ?thesis by (simp add: parsed_def)
  next
    case (Thrown m)
    with noThrowD [OF noThrow_TYPE, of ts m] show ?thesis by simp
  qed
  have atomic: "parsed (TYPE' (q2 # ts)) = Some (OptionalType t, [])"
    if q: "kind q2 = OtherKind \<and> text q2 = ''?''" and tm: "TYPE_TERM ts = Success t [] e"
      and ns: "\<not> startsWith ''|'' ts" and no: "\<not> isOptionalType t"
    for q2 :: Token and ts t e
  proof -
    have "apply_p (seq (str ''['') (str '']'')) applyArrayTypeLrec []
            = Failure UnexpectedEndOfInput"
      and "apply_p (seq (str ''|'') TYPE_ARRAY) applyUnionTypeLrec []
            = Failure UnexpectedEndOfInput"
      by (simp_all add: apply_p_def seq_def str_def unableToConsume_def)
    with ns tm obtain e' where "TYPE' ts = Success t [] e'"
      by (blast dest: TYPE_of_TYPE_TERM)
    with q TYPE_question(1) [of q2 ts t "[]"] obtain e2
      where "TYPE' (q2 # ts) = Success (applyOptionalType (q2, t)) [] e2" by blast
    moreover from no have "applyOptionalType (q2, t) = OptionalType t"
      by (cases t) simp_all
    ultimately show ?thesis by (simp add: parsed_def)
  qed
  have nested: "OptionalType (OptionalType elementType) \<notin> set (typeNodes t)"
    if "TYPE' ts = Success t r e" for ts t r e elementType
  proof
    assume "OptionalType (OptionalType elementType) \<in> set (typeNodes t)"
    moreover have "wellFormed t"
      using wellFormed_type_rules that by (auto dest: resultsD)
    ultimately have "wellFormedNode (OptionalType (OptionalType elementType))"
      by (auto intro: wellFormed_node)
    then show False by (simp add: wellFormedNode_def)
  qed
  show ?thesis
    using same atomic nested by (intro conjI allI impI) (simp_all del: typeNodes.simps)
qed

theorem double_optional_collapses_witness:
  "kind (mkToken OtherKind ''?'' 0) = OtherKind \<and> text (mkToken OtherKind ''?'' 0) = ''?''
   \<and> kind (mkToken OtherKind ''?'' 1) = OtherKind \<and> text (mkToken OtherKind ''?'' 1) = ''?''
   \<and> TYPE_TERM [mkToken Identifier ''T'' 2]
     = Success (TypeReference (Some (Name ''T'')) []) [] (Some UnexpectedEndOfInput)
   \<and> \<not> startsWith ''|'' [mkToken Identifier ''T'' 2]
   \<and> \<not> isOptionalType (TypeReference (Some (Name ''T'')) [])
   \<and> parsed (TYPE' [mkToken OtherKind ''?'' 0, mkToken OtherKind ''?'' 1,
                    mkToken Identifier ''T'' 2])
     = parsed (TYPE' [mkToken OtherKind ''?'' 1, mkToken Identifier ''T'' 2])
   \<and> parsed (TYPE' [mkToken OtherKind ''?'' 1, mkToken Identifier ''T'' 2])
     = Some (OptionalType (TypeReference (Some (Name ''T'')) []), [])
   \<and> parsed (TYPE' [mkToken OtherKind ''?'' 0, mkToken OtherKind ''?'' 1,
                    mkToken Identifier ''T'' 2])
     = Some (OptionalType (TypeReference (Some (Name ''T'')) []), [])"
proof -
  have q1: "kind (mkToken OtherKind ''?'' 0) = OtherKind \<and> text (mkToken OtherKind ''?'' 0) = ''?''"
    by (simp add: mkToken_def)
  have q2: "kind (mkToken OtherKind ''?'' 1) = OtherKind \<and> text (mkToken OtherKind ''?'' 1) = ''?''"
    by (simp add: mkToken_def)
  have tm: "TYPE_TERM [mkToken Identifier ''T'' 2]
     = Success (TypeReference (Some (Name ''T'')) []) [] (Some UnexpectedEndOfInput)"
    by (simp add: evaluation)
  have ns: "\<not> startsWith ''|'' [mkToken Identifier ''T'' 2]"
    by (simp add: startsWith_def mkToken_def)
  have no: "\<not> isOptionalType (TypeReference (Some (Name ''T'')) [])"
    by simp
  note claim = double_optional_collapses
  from claim q1 q2
  have a: "parsed (TYPE' [mkToken OtherKind ''?'' 0, mkToken OtherKind ''?'' 1,
                    mkToken Identifier ''T'' 2])
     = parsed (TYPE' [mkToken OtherKind ''?'' 1, mkToken Identifier ''T'' 2])"
    by blast
  from claim q1 q2 tm ns no
  have b: "parsed (TYPE' [mkToken OtherKind ''?'' 1, mkToken Identifier ''T'' 2])
     = Some (OptionalType (TypeReference (Some (Name ''T'')) []), [])"
    by blast
  from q1 q2 tm ns no a b show ?thesis by simp
qed

text \<open>
  C3. The array suffix binds tighter than the union operator and associates to the left:
  \<^verbatim>\<open>A | B[]\<close> is the union of \<^verbatim>\<open>A\<close> and the array of \<^verbatim>\<open>B\<close>, \<^verbatim>\<open>T[][]\<close> is the array of the
  array of \<^verbatim>\<open>T\<close>, and so is any term followed by two \<^verbatim>\<open>[]\<close> pairs.
\<close>

theorem array_suffix_binds_tighter_than_union:
  "TYPE' [mkToken Identifier ''A'' 0, mkToken OtherKind ''|'' 2, mkToken Identifier ''B'' 4,
          mkToken OtherKind ''['' 5, mkToken OtherKind '']'' 6]
     = Success
         (UnionType
            [TypeReference (Some (Name ''A'')) [],
             ArrayType False (Some (TypeReference (Some (Name ''B'')) []))])
         [] (Some UnexpectedEndOfInput)
   \<and> TYPE' [mkToken Identifier ''T'' 0, mkToken OtherKind ''['' 1, mkToken OtherKind '']'' 2,
            mkToken OtherKind ''['' 3, mkToken OtherKind '']'' 4]
     = Success
         (ArrayType False (Some (ArrayType False (Some (TypeReference (Some (Name ''T'')) [])))))
         [] (Some UnexpectedEndOfInput)
   \<and> (\<forall>ts t lb1 rb1 lb2 rb2 e.
         TYPE_TERM ts = Success t [lb1, rb1, lb2, rb2] e
         \<and> text lb1 = ''['' \<and> text rb1 = '']'' \<and> text lb2 = ''['' \<and> text rb2 = '']''
         \<longrightarrow> (\<exists>e'. TYPE_ARRAY ts
                    = Success (ArrayType False (Some (ArrayType False (Some t)))) [] e'))"
proof (intro conjI allI impI)
  show "TYPE' [mkToken Identifier ''A'' 0, mkToken OtherKind ''|'' 2, mkToken Identifier ''B'' 4,
          mkToken OtherKind ''['' 5, mkToken OtherKind '']'' 6]
     = Success
         (UnionType
            [TypeReference (Some (Name ''A'')) [],
             ArrayType False (Some (TypeReference (Some (Name ''B'')) []))])
         [] (Some UnexpectedEndOfInput)"
    by (simp add: evaluation)
  show "TYPE' [mkToken Identifier ''T'' 0, mkToken OtherKind ''['' 1, mkToken OtherKind '']'' 2,
            mkToken OtherKind ''['' 3, mkToken OtherKind '']'' 4]
     = Success
         (ArrayType False (Some (ArrayType False (Some (TypeReference (Some (Name ''T'')) [])))))
         [] (Some UnexpectedEndOfInput)"
    by (simp add: evaluation)
next
  fix ts t lb1 rb1 lb2 rb2 e
  assume h: "TYPE_TERM ts = Success t [lb1, rb1, lb2, rb2] e
         \<and> text lb1 = ''['' \<and> text rb1 = '']'' \<and> text lb2 = ''['' \<and> text rb2 = '']''"
  then show "\<exists>e'. TYPE_ARRAY ts
                    = Success (ArrayType False (Some (ArrayType False (Some t)))) [] e'"
    by (simp add: TYPE_ARRAY_unfold TYPE_ARRAY_pattern_def lrec_sc_def seq_def apply_p_def
        rep_sc_Nil rep_sc_Cons str_def applyTypeLrec_def)
qed

theorem array_suffix_binds_tighter_than_union_witness:
  "TYPE_TERM [mkToken Identifier ''T'' 0, mkToken OtherKind ''['' 1, mkToken OtherKind '']'' 2,
            mkToken OtherKind ''['' 3, mkToken OtherKind '']'' 4]
     = Success (TypeReference (Some (Name ''T'')) [])
         [mkToken OtherKind ''['' 1, mkToken OtherKind '']'' 2,
          mkToken OtherKind ''['' 3, mkToken OtherKind '']'' 4] (Some (UnexpectedToken 1))
   \<and> (\<exists>e'. TYPE_ARRAY [mkToken Identifier ''T'' 0, mkToken OtherKind ''['' 1,
                  mkToken OtherKind '']'' 2, mkToken OtherKind ''['' 3, mkToken OtherKind '']'' 4]
        = Success
            (ArrayType False (Some (ArrayType False (Some (TypeReference (Some (Name ''T'')) [])))))
            [] e')"
proof -
  have h: "TYPE_TERM [mkToken Identifier ''T'' 0, mkToken OtherKind ''['' 1,
             mkToken OtherKind '']'' 2, mkToken OtherKind ''['' 3, mkToken OtherKind '']'' 4]
     = Success (TypeReference (Some (Name ''T'')) [])
         [mkToken OtherKind ''['' 1, mkToken OtherKind '']'' 2,
          mkToken OtherKind ''['' 3, mkToken OtherKind '']'' 4] (Some (UnexpectedToken 1))"
    by (simp add: evaluation)
  have texts: "text (mkToken OtherKind ''['' 1) = ''['' \<and> text (mkToken OtherKind '']'' 2) = '']''
      \<and> text (mkToken OtherKind ''['' 3) = ''['' \<and> text (mkToken OtherKind '']'' 4) = '']''"
    by (simp add: mkToken_def)
  from array_suffix_binds_tighter_than_union h texts show ?thesis by blast
qed

text \<open>
  C4. Every array node in a tree returned by the type parser or by the array layer has its
  element type set. The fold step \<^verbatim>\<open>applyArrayTypeLrec\<close> builds the node without one, and
  \<^verbatim>\<open>applyTypeLrec\<close> fills it in with the operand to its left.
\<close>

theorem array_element_types_are_resolved:
  "(\<forall>ts t r e isReadonly.
      (TYPE' ts = Success t r e \<or> TYPE_ARRAY ts = Success t r e)
      \<longrightarrow> ArrayType isReadonly None \<notin> set (typeNodes t))
   \<and> applyArrayTypeLrec (lb, rb) = ArrayType False None
   \<and> applyTypeLrec first (ArrayType False None) = Inr (ArrayType False (Some first))"
proof (intro conjI allI impI)
  fix ts t r e isReadonly
  assume h: "TYPE' ts = Success t r e \<or> TYPE_ARRAY ts = Success t r e"
  have "wellFormed t"
    using wellFormed_type_rules h by (auto dest: resultsD)
  then have "u \<in> set (typeNodes t) \<Longrightarrow> wellFormedNode u" for u
    by (rule wellFormed_node)
  then show "ArrayType isReadonly None \<notin> set (typeNodes t)"
    by (force simp: wellFormedNode_def)
qed (simp_all add: applyTypeLrec_def)

theorem array_element_types_are_resolved_witness:
  "TYPE_ARRAY [mkToken Identifier ''T'' 0, mkToken OtherKind ''['' 1, mkToken OtherKind '']'' 2]
     = Success (ArrayType False (Some (TypeReference (Some (Name ''T'')) []))) []
         (Some UnexpectedEndOfInput)
   \<and> ArrayType False None
       \<notin> set (typeNodes (ArrayType False (Some (TypeReference (Some (Name ''T'')) []))))"
proof -
  have h: "TYPE_ARRAY [mkToken Identifier ''T'' 0, mkToken OtherKind ''['' 1,
                       mkToken OtherKind '']'' 2]
     = Success (ArrayType False (Some (TypeReference (Some (Name ''T'')) []))) []
         (Some UnexpectedEndOfInput)"
    by (simp add: evaluation)
  from array_element_types_are_resolved h show ?thesis by blast
qed

text \<open>
  C5. The dotted type reference \<^verbatim>\<open>a.b.c\<close> is a type reference to the entity
  \<^verbatim>\<open>{parent: {parent: "a", name: "b"}, name: "c"}\<close> without type arguments: the first
  identifier is the innermost base, the last one the outermost name. The reduction does
  this for any three names.
\<close>

theorem dotted_type_reference:
  "TYPE' [mkToken Identifier ''a'' 0, mkToken OtherKind ''.'' 1, mkToken Identifier ''b'' 2,
          mkToken OtherKind ''.'' 3, mkToken Identifier ''c'' 4]
     = Success
         (TypeReference (Some (QualifiedName (QualifiedName (Name ''a'') ''b'') ''c'')) [])
         [] (Some UnexpectedEndOfInput)
   \<and> applyTypeReference ([a, b, c], None)
     = TypeReference (Some (QualifiedName (QualifiedName (Name (text a)) (text b)) (text c))) []"
  by (simp add: evaluation)

text \<open>
  C6, as the claim states it: \<open>isExact\<close> would be set exactly when the token after the
  opening brace and the token before the closing brace are both \<^verbatim>\<open>|\<close>. The literal
  \<^verbatim>\<open>{| a: number }\<close> is accepted and exact with no bar before its closing brace.
\<close>

theorem exact_needs_both_bars_counterexample:
  "\<not> (\<forall>ts isExact mixins members e.
        TYPE_TERM ts = Success (ObjectType isExact mixins members) [] e
        \<longrightarrow> (isExact \<longleftrightarrow> text (ts ! 1) = ''|'' \<and> text (ts ! (length ts - 2)) = ''|''))"
proof
  let ?ts = "[mkToken OtherKind ''{'' 0, mkToken OtherKind ''|'' 1, mkToken Identifier ''a'' 3,
              mkToken OtherKind '':'' 4, mkToken Identifier ''number'' 6,
              mkToken OtherKind ''}'' 13]"
  assume a: "\<forall>ts isExact mixins members e.
        TYPE_TERM ts = Success (ObjectType isExact mixins members) [] e
        \<longrightarrow> (isExact \<longleftrightarrow> text (ts ! 1) = ''|'' \<and> text (ts ! (length ts - 2)) = ''|'')"
  have "TYPE_TERM ?ts
          = Success (ObjectType True [] [Prop False ''a'' False (PrimitiveType ''number'')]) []
              (Some (UnexpectedToken 13))"
    by (simp add: evaluation)
  with a have "text (?ts ! (length ?ts - 2)) = ''|''" by blast
  then show False by (simp add: mkToken_def)
qed

text \<open>
  C6, amended. For every object type literal the atomic type parser accepts, \<open>isExact\<close> is
  set exactly when a \<^verbatim>\<open>|\<close> follows the opening brace; a \<^verbatim>\<open>|\<close> before the closing brace is
  accepted and has no effect. \<^verbatim>\<open>{| a: number |}\<close> is exact and \<^verbatim>\<open>{ a: number }\<close> is not,
  both with the single member \<^verbatim>\<open>a\<close> of the primitive type \<^verbatim>\<open>number\<close>, neither read-only
  nor optional.
\<close>

theorem exact_follows_leading_bar:
  "(\<forall>lb rest t r e.
      kind lb = OtherKind \<and> text lb = ''{'' \<and> TYPE_TERM (lb # rest) = Success t r e
      \<longrightarrow> (\<exists>mixins members. t = ObjectType (startsWith ''|'' rest) mixins members))
   \<and> TYPE_TERM [mkToken OtherKind ''{'' 0, mkToken OtherKind ''|'' 1, mkToken Identifier ''a'' 3,
                mkToken OtherKind '':'' 4, mkToken Identifier ''number'' 6,
                mkToken OtherKind ''|'' 13, mkToken OtherKind ''}'' 14]
     = Success (ObjectType True [] [Prop False ''a'' False (PrimitiveType ''number'')]) []
         (Some (UnexpectedToken 14))
   \<and> TYPE_TERM [mkToken OtherKind ''{'' 0, mkToken Identifier ''a'' 2, mkToken OtherKind '':'' 3,
                mkToken Identifier ''number'' 5, mkToken OtherKind ''}'' 12]
     = Success (ObjectType False [] [Prop False ''a'' False (PrimitiveType ''number'')]) []
         (Some (UnexpectedToken 12))
   \<and> TYPE_TERM [mkToken OtherKind ''{'' 0, mkToken Identifier ''a'' 3, mkToken OtherKind '':'' 4,
                mkToken Identifier ''number'' 6, mkToken OtherKind ''|'' 13,
                mkToken OtherKind ''}'' 14]
     = Success (ObjectType False [] [Prop False ''a'' False (PrimitiveType ''number'')]) []
         (Some (UnexpectedToken 14))"
proof (intro conjI allI impI)
  fix lb :: Token and rest t r e
  assume "kind lb = OtherKind \<and> text lb = ''{'' \<and> TYPE_TERM (lb # rest) = Success t r e"
  then show "\<exists>mixins members. t = ObjectType (startsWith ''|'' rest) mixins members"
    by (blast intro: TYPE_TERM_brace)
qed (simp_all add: evaluation)

theorem exact_follows_leading_bar_witness:
  "kind (mkToken OtherKind ''{'' 0) = OtherKind \<and> text (mkToken OtherKind ''{'' 0) = ''{''
   \<and> TYPE_TERM [mkToken OtherKind ''{'' 0, mkToken OtherKind ''|'' 1, mkToken Identifier ''a'' 3,
                mkToken OtherKind '':'' 4, mkToken Identifier ''number'' 6,
                mkToken OtherKind ''}'' 13]
     = Success (ObjectType True [] [Prop False ''a'' False (PrimitiveType ''number'')]) []
         (Some (UnexpectedToken 13))
   \<and> startsWith ''|'' [mkToken OtherKind ''|'' 1, mkToken Identifier ''a'' 3,
                mkToken OtherKind '':'' 4, mkToken Identifier ''number'' 6,
                mkToken OtherKind ''}'' 13]"
proof -
  have k: "kind (mkToken OtherKind ''{'' 0) = OtherKind \<and> text (mkToken OtherKind ''{'' 0) = ''{''"
    by (simp add: mkToken_def)
  have p: "TYPE_TERM [mkToken OtherKind ''{'' 0, mkToken OtherKind ''|'' 1,
                mkToken Identifier ''a'' 3,
                mkToken OtherKind '':'' 4, mkToken Identifier ''number'' 6,
                mkToken OtherKind ''}'' 13]
     = Success (ObjectType True [] [Prop False ''a'' False (PrimitiveType ''number'')]) []
         (Some (UnexpectedToken 13))"
    by (simp add: evaluation)
  from exact_follows_leading_bar k p
  have "\<exists>mixins members.
          ObjectType True [] [Prop False ''a'' False (PrimitiveType ''number'')]
            = ObjectType (startsWith ''|'' [mkToken OtherKind ''|'' 1, mkToken Identifier ''a'' 3,
                mkToken OtherKind '':'' 4, mkToken Identifier ''number'' 6,
                mkToken OtherKind ''}'' 13]) mixins members"
    by blast
  with k p show ?thesis by simp
qed

text \<open>
  C7. The program \<^verbatim>\<open>export type A = number;\<close> has exactly one statement, the exported
  alias of \<^verbatim>\<open>A\<close> to the primitive type \<^verbatim>\<open>number\<close>; and a declaration has \<open>hasExport\<close> set
  exactly when its first token is \<^verbatim>\<open>export\<close>.
\<close>

theorem export_type_alias:
  "PROGRAM [mkToken OtherKind ''export'' 0, mkToken KEYWORD_type ''type'' 7,
            mkToken Identifier ''A'' 12, mkToken OtherKind ''='' 14,
            mkToken Identifier ''number'' 16, mkToken OtherKind '';'' 22]
     = Success (FlowProgram [TypeAliasDecl True ''A'' (PrimitiveType ''number'')]) []
         (Some UnexpectedEndOfInput)
   \<and> (\<forall>ts d r e. DECL ts = Success d r e
         \<longrightarrow> (\<exists>name aliasedType. d = TypeAliasDecl (startsWith ''export'' ts) name aliasedType))"
proof (intro conjI allI impI)
  show "PROGRAM [mkToken OtherKind ''export'' 0, mkToken KEYWORD_type ''type'' 7,
            mkToken Identifier ''A'' 12, mkToken OtherKind ''='' 14,
            mkToken Identifier ''number'' 16, mkToken OtherKind '';'' 22]
     = Success (FlowProgram [TypeAliasDecl True ''A'' (PrimitiveType ''number'')]) []
         (Some UnexpectedEndOfInput)"
    by (simp add: evaluation)
next
  fix ts d r e
  assume "DECL ts = Success d r e"
  then obtain hasExport rest r1 e1 e2 where
    opt: "opt_sc (str ''export'') ts = Success hasExport r1 e1" and
    d: "d = applyTypeAliasDecl (hasExport, rest)"
    by (auto simp: DECL_def apply_p_Success seq_Success)
  from opt have "(hasExport \<noteq> None) = startsWith ''export'' ts"
    by (auto simp: opt_sc_Success str_Failure dest: str_Success_startsWith)
  with d show "\<exists>name aliasedType. d = TypeAliasDecl (startsWith ''export'' ts) name aliasedType"
    by (cases rest) auto
qed

theorem export_type_alias_witness:
  "DECL [mkToken KEYWORD_type ''type'' 0, mkToken Identifier ''A'' 5, mkToken OtherKind ''='' 7,
         mkToken Identifier ''number'' 9, mkToken OtherKind '';'' 15]
     = Success (TypeAliasDecl False ''A'' (PrimitiveType ''number'')) []
         (Some (UnexpectedToken 15))
   \<and> \<not> startsWith ''export''
         [mkToken KEYWORD_type ''type'' 0, mkToken Identifier ''A'' 5, mkToken OtherKind ''='' 7,
          mkToken Identifier ''number'' 9, mkToken OtherKind '';'' 15]"
proof -
  have h: "DECL [mkToken KEYWORD_type ''type'' 0, mkToken Identifier ''A'' 5,
         mkToken OtherKind ''='' 7, mkToken Identifier ''number'' 9, mkToken OtherKind '';'' 15]
     = Success (TypeAliasDecl False ''A'' (PrimitiveType ''number'')) []
         (Some (UnexpectedToken 15))"
    by (simp add: evaluation)
  from export_type_alias h show ?thesis by fastforce
qed



text \<open>
  C9. The program rule succeeds on every token list. Its statements are those the
  statement rule recognises one after the other from the start, in that order, and it
  stops, without failing, at the first position where the statement rule fails: on the
  empty list, and on a list that begins with no statement, the program has no statements.
\<close>

theorem program_always_succeeds:
  "(\<forall>ts. \<exists>statements rest e. PROGRAM ts = Success (FlowProgram statements) rest e)
   \<and> (\<forall>ts program rest e. PROGRAM ts = Success program rest e \<longrightarrow> (\<exists>e'. STAT rest = Failure e'))
   \<and> (\<forall>ts s r1 e1 statements rest e2.
        STAT ts = Success s r1 e1 \<and> PROGRAM r1 = Success (FlowProgram statements) rest e2
        \<longrightarrow> PROGRAM ts = Success (FlowProgram (s # statements)) rest (betterError e1 e2))
   \<and> (\<forall>ts e. STAT ts = Failure e \<longrightarrow> PROGRAM ts = Success (FlowProgram []) ts (Some e))
   \<and> PROGRAM [] = Success (FlowProgram []) [] (Some UnexpectedEndOfInput)"
proof (intro conjI allI impI)
  fix ts
  from rep_sc_succeeds [OF noThrow_STAT, of ts]
  show "\<exists>statements rest e. PROGRAM ts = Success (FlowProgram statements) rest e"
    by (auto simp: PROGRAM_def apply_p_def applyProgram_def)
next
  fix ts program rest e
  assume "PROGRAM ts = Success program rest e"
  then obtain vs where "rep_sc STAT ts = Success vs rest e"
    by (auto simp: PROGRAM_def apply_p_Success)
  then show "\<exists>e'. STAT rest = Failure e'"
    using advancing_STAT by (rule rep_sc_stops)
next
  fix ts s r1 e1 statements rest e2
  assume h: "STAT ts = Success s r1 e1 \<and> PROGRAM r1 = Success (FlowProgram statements) rest e2"
  then have len: "length r1 < length ts"
    using advancing_STAT by (auto simp: advancing_def)
  from h have "rep_sc STAT r1 = Success statements rest e2"
    by (auto simp: PROGRAM_def apply_p_Success applyProgram_def)
  with h len have "rep_sc STAT ts = Success (s # statements) rest (betterError e1 e2)"
    by (auto intro: rep_sc_Success_step)
  then show "PROGRAM ts = Success (FlowProgram (s # statements)) rest (betterError e1 e2)"
    by (simp add: PROGRAM_def apply_p_def applyProgram_def)
next
  fix ts e
  assume "STAT ts = Failure e"
  then show "PROGRAM ts = Success (FlowProgram []) ts (Some e)"
    by (simp add: PROGRAM_def apply_p_def applyProgram_def rep_sc_Failure_step)
next
  show "PROGRAM [] = Success (FlowProgram []) [] (Some UnexpectedEndOfInput)"
    by (simp add: evaluation)
qed

theorem program_always_succeeds_witness:
  "STAT [mkToken OtherKind '';'' 0] = Failure (UnexpectedToken 0)
   \<and> PROGRAM [mkToken OtherKind '';'' 0]
     = Success (FlowProgram []) [mkToken OtherKind '';'' 0] (Some (UnexpectedToken 0))
   \<and> STAT [mkToken StringLiteral useStrictText 0, mkToken OtherKind '';'' 12,
            mkToken OtherKind '';'' 13]
     = Success UseStrictStat [mkToken OtherKind '';'' 13] (Some (UnexpectedToken 0))
   \<and> PROGRAM [mkToken StringLiteral useStrictText 0, mkToken OtherKind '';'' 12,
               mkToken OtherKind '';'' 13]
     = Success (FlowProgram [UseStrictStat]) [mkToken OtherKind '';'' 13]
         (betterError (Some (UnexpectedToken 0)) (Some (UnexpectedToken 13)))
   \<and> (\<exists>e'. STAT [mkToken OtherKind '';'' 13] = Failure e')"
proof -
  have f0: "STAT [mkToken OtherKind '';'' 0] = Failure (UnexpectedToken 0)"
    by (simp add: evaluation)
  have f13: "STAT [mkToken OtherKind '';'' 13] = Failure (UnexpectedToken 13)"
    by (simp add: evaluation)
  have s: "STAT [mkToken StringLiteral useStrictText 0, mkToken OtherKind '';'' 12,
            mkToken OtherKind '';'' 13]
     = Success UseStrictStat [mkToken OtherKind '';'' 13] (Some (UnexpectedToken 0))"
    by (simp add: evaluation)
  from program_always_succeeds f0
  have p0: "PROGRAM [mkToken OtherKind '';'' 0]
     = Success (FlowProgram []) [mkToken OtherKind '';'' 0] (Some (UnexpectedToken 0))"
    by blast
  from program_always_succeeds f13
  have p13: "PROGRAM [mkToken OtherKind '';'' 13]
     = Success (FlowProgram []) [mkToken OtherKind '';'' 13] (Some (UnexpectedToken 13))"
    by blast
  from program_always_succeeds s p13
  have p: "PROGRAM [mkToken StringLiteral useStrictText 0, mkToken OtherKind '';'' 12,
               mkToken OtherKind '';'' 13]
     = Success (FlowProgram [UseStrictStat]) [mkToken OtherKind '';'' 13]
         (betterError (Some (UnexpectedToken 0)) (Some (UnexpectedToken 13)))"
    by blast
  from program_always_succeeds p have "\<exists>e'. STAT [mkToken OtherKind '';'' 13] = Failure e'"
    by blast
  with f0 p0 s p show ?thesis by blast
qed



end
